theory Spec2Isabelle
  imports Main "HOL-Library.Product_Lexorder" "HOL-Library.List_Lexorder"
begin

section \<open>Grid constants and directions (game.py, lines 27-54)\<close>

text \<open>
  Cells and directions are Python tuples of two unbounded integers. A direction is
  not a separate type in the source: it is whatever pair is stored in
  \<open>Cycle.direction\<close>.
\<close>

type_synonym cell = "int \<times> int"

definition COLS :: int where "COLS = 60"
definition ROWS :: int where "ROWS = 40"

definition UP :: cell where "UP = (0, -1)"
definition DOWN :: cell where "DOWN = (0, 1)"
definition LEFT :: cell where "LEFT = (-1, 0)"
definition RIGHT :: cell where "RIGHT = (1, 0)"

definition DIRS :: "cell list" where
  "DIRS = [UP, DOWN, LEFT, RIGHT]"

definition opposite :: "cell \<Rightarrow> cell" where
  "opposite d = (- fst d, - snd d)"

section \<open>A* search (game.py, lines 66-107)\<close>

definition heuristic :: "cell \<Rightarrow> cell \<Rightarrow> int" where
  "heuristic a b = \<bar>fst a - fst b\<bar> + \<bar>snd a - snd b\<bar>"

text \<open>
  An entry of the open list is the tuple \<open>(f, g, node, path)\<close>. Python compares such
  tuples lexicographically, and the lists inside them lexicographically as well; this
  is the order that \<open>Product_Lexorder\<close> and \<open>List_Lexorder\<close> put on the type, and it is
  total. \<open>heapq\<close> keeps the entries in a binary heap stored in a list; all that the
  search observes of it is that \<open>heappop\<close> removes and returns a least entry. The heap
  is therefore modelled by the list of its entries, \<open>heappop\<close> taking out the least one.
\<close>

type_synonym entry = "int \<times> int \<times> cell \<times> cell list"

definition heappush :: "entry list \<Rightarrow> entry \<Rightarrow> entry list" where
  "heappush h x = x # h"

definition heappop :: "entry list \<Rightarrow> entry \<times> entry list" where
  "heappop h = (let m = Min (set h) in (m, remove1 m h))"

text \<open>The body of \<open>for dx, dy in DIRS\<close> (lines 94-105), for one direction.\<close>

definition astar_neighbor ::
  "cell set \<Rightarrow> cell set \<Rightarrow> cell \<Rightarrow> int \<Rightarrow> cell \<Rightarrow> cell list \<Rightarrow> cell \<Rightarrow> entry list \<Rightarrow> entry list"
where
  "astar_neighbor closed blocked goal g current path d open_list =
     (let nx = fst current + fst d;
          ny = snd current + snd d;
          neighbor = (nx, ny)
      in if neighbor \<in> closed then open_list
         else if nx < 0 \<or> ny < 0 \<or> nx \<ge> COLS \<or> ny \<ge> ROWS then open_list
         else if neighbor \<in> blocked then open_list
         else (let g_next = g + 1;
                   f_next = g_next + heuristic neighbor goal
               in heappush open_list (f_next, g_next, neighbor, path @ [neighbor])))"

definition grid :: "cell set" where
  "grid = {0..<COLS} \<times> {0..<ROWS}"

text \<open>
  The measure of the \<open>while open_list\<close> loop: the cells that may still be closed
  (the cells of the grid and the nodes waiting in the open list, less those closed
  already), then the length of the open list.
\<close>

definition astar_measure :: "entry list \<times> cell set \<times> cell \<times> cell set \<Rightarrow> nat \<times> nat" where
  "astar_measure = (\<lambda>(open_list, closed, goal, blocked).
     (card (((\<lambda>e. fst (snd (snd e))) ` set open_list \<union> grid) - closed), length open_list))"

text \<open>
  The \<open>while open_list\<close> loop (lines 83-105). \<open>None\<close> is Python's \<open>None\<close>
  (no path found), \<open>Some path\<close> the returned list.
\<close>

function astar_loop :: "entry list \<Rightarrow> cell set \<Rightarrow> cell \<Rightarrow> cell set \<Rightarrow> cell list option" where
  "astar_loop open_list closed goal blocked =
     (if open_list = [] then None
      else (case heappop open_list of ((f, g, current, path), rest) \<Rightarrow>
        if current = goal then Some path
        else if current \<in> closed then astar_loop rest closed goal blocked
        else astar_loop
               (fold (astar_neighbor (insert current closed) blocked goal g current path) DIRS rest)
               (insert current closed) goal blocked))"
  by pat_completeness auto
termination
proof (relation "inv_image (less_than <*lex*> less_than) astar_measure")
  show "wf (inv_image (less_than <*lex*> less_than) astar_measure)"
    by (intro wf_inv_image wf_lex_prod wf_less_than)
next
  fix open_list :: "entry list" and closed :: "cell set" and goal :: cell
    and blocked :: "cell set" and x y xa ya xb yb xc yaa
  assume ne: "open_list \<noteq> []" and pop: "(x, y) = heappop open_list"
  let ?nd = "\<lambda>e::entry. fst (snd (snd e))"
  have y: "y = remove1 (Min (set open_list)) open_list"
    using pop by (simp add: heappop_def Let_def)
  have "Min (set open_list) \<in> set open_list"
    using ne by (intro Min_in) simp_all
  then have len: "length y < length open_list"
    unfolding y using ne by (simp add: length_remove1)
  have "set y \<subseteq> set open_list"
    unfolding y by (rule set_remove1_subset)
  then have "(?nd ` set y \<union> grid) - closed \<subseteq> (?nd ` set open_list \<union> grid) - closed"
    by auto
  moreover have "finite ((?nd ` set open_list \<union> grid) - closed)"
    by (simp add: grid_def)
  ultimately have "card ((?nd ` set y \<union> grid) - closed)
      \<le> card ((?nd ` set open_list \<union> grid) - closed)"
    by (intro card_mono)
  with len show "((y, closed, goal, blocked), open_list, closed, goal, blocked)
      \<in> inv_image (less_than <*lex*> less_than) astar_measure"
    by (auto simp: astar_measure_def)
next
  fix open_list :: "entry list" and closed :: "cell set" and goal :: cell
    and blocked :: "cell set" and x y xa ya xb yb xc yaa
  assume ne: "open_list \<noteq> []" and pop: "(x, y) = heappop open_list"
    and sp: "(xa, ya) = x" "(xb, yb) = ya" "(xc, yaa) = yb"
    and nc: "xc \<notin> closed"
  let ?nd = "\<lambda>e::entry. fst (snd (snd e))"
  let ?f = "astar_neighbor (insert xc closed) blocked goal xb xc yaa"
  have xy: "x = Min (set open_list)" "y = remove1 (Min (set open_list)) open_list"
    using pop by (simp_all add: heappop_def Let_def)
  have x_in: "x \<in> set open_list"
    unfolding xy using ne by (intro Min_in) simp_all
  have y_sub: "set y \<subseteq> set open_list"
    unfolding xy by (rule set_remove1_subset)
  have step: "?nd ` set (?f d ol) \<subseteq> ?nd ` set ol \<union> grid" for d ol
    by (auto simp: astar_neighbor_def Let_def heappush_def grid_def)
  have all: "?nd ` set (fold ?f ds ol) \<subseteq> ?nd ` set ol \<union> grid" for ds ol
  proof (induction ds arbitrary: ol)
    case Nil
    show ?case by simp
  next
    case (Cons d ds)
    have "?nd ` set (fold ?f ds (?f d ol)) \<subseteq> ?nd ` set (?f d ol) \<union> grid"
      by (rule Cons.IH)
    with step [of d ol]
    have "?nd ` set (fold ?f ds (?f d ol)) \<subseteq> ?nd ` set ol \<union> grid"
      by blast
    then show ?case by simp
  qed
  let ?A = "(?nd ` set (fold ?f DIRS y) \<union> grid) - insert xc closed"
  let ?B = "(?nd ` set open_list \<union> grid) - closed"
  have "?nd x = xc"
    using sp by (metis fst_conv snd_conv)
  with x_in have xc_in: "xc \<in> ?nd ` set open_list"
    by (metis image_eqI)
  have "?nd ` set y \<subseteq> ?nd ` set open_list"
    using y_sub by (rule image_mono)
  with all [of DIRS y] have "?nd ` set (fold ?f DIRS y) \<subseteq> ?nd ` set open_list \<union> grid"
    by blast
  then have "?A \<subseteq> ?B - {xc}"
    by blast
  moreover have "xc \<in> ?B" using xc_in nc by simp
  ultimately have "?A \<subset> ?B" by blast
  moreover have "finite ?B" by (simp add: grid_def)
  ultimately have "card ?A < card ?B" by (rule psubset_card_mono [rotated])
  then show "((fold ?f DIRS y, insert xc closed, goal, blocked), open_list, closed, goal, blocked)
      \<in> inv_image (less_than <*lex*> less_than) astar_measure"
    by (simp add: astar_measure_def)
qed

declare astar_loop.simps [simp del]

definition astar :: "cell \<Rightarrow> cell \<Rightarrow> cell set \<Rightarrow> cell list option" where
  "astar start goal blocked =
     astar_loop (heappush [] (heuristic start goal, 0, start, [start])) {} goal blocked"

section \<open>Flood fill (game.py, lines 113-126)\<close>

text \<open>The body of \<open>for dx, dy in DIRS\<close> (lines 120-125), for one direction.\<close>

definition flood_neighbor ::
  "cell set \<Rightarrow> int \<Rightarrow> int \<Rightarrow> cell \<Rightarrow> cell set \<times> cell list \<Rightarrow> cell set \<times> cell list"
where
  "flood_neighbor blocked x y d = (\<lambda>(visited, queue).
     (let nx = x + fst d;
          ny = y + snd d;
          n = (nx, ny)
      in if n \<notin> visited \<and> n \<notin> blocked \<and> 0 \<le> nx \<and> nx < COLS \<and> 0 \<le> ny \<and> ny < ROWS
         then (insert n visited, queue @ [n])
         else (visited, queue)))"

text \<open>
  The measure of the \<open>while queue\<close> loop: the grid cells not yet visited, then the
  length of the queue.
\<close>

definition flood_measure :: "cell set \<times> cell list \<times> cell set \<Rightarrow> nat \<times> nat" where
  "flood_measure = (\<lambda>(visited, queue, blocked). (card (grid - visited), length queue))"

text \<open>
  The \<open>while queue\<close> loop (lines 117-125); \<open>queue.pop()\<close> takes the last element.
\<close>

function flood_fill_loop :: "cell set \<Rightarrow> cell list \<Rightarrow> cell set \<Rightarrow> cell set" where
  "flood_fill_loop visited queue blocked =
     (if queue = [] then visited
      else (case last queue of (x, y) \<Rightarrow>
        (case fold (flood_neighbor blocked x y) DIRS (visited, butlast queue) of
           (visited', queue') \<Rightarrow> flood_fill_loop visited' queue' blocked)))"
  by pat_completeness auto
termination
proof (relation "inv_image (less_than <*lex*> less_than) flood_measure")
  show "wf (inv_image (less_than <*lex*> less_than) flood_measure)"
    by (intro wf_inv_image wf_lex_prod wf_less_than)
next
  fix visited :: "cell set" and queue :: "cell list" and blocked :: "cell set"
    and x y :: int and xb :: "cell set" and ya :: "cell list"
  assume ne: "queue \<noteq> []"
    and sp: "(xb, ya) = fold (flood_neighbor blocked x y) DIRS (visited, butlast queue)"
  let ?f = "flood_neighbor blocked x y"
  let ?m = "\<lambda>(v, q). (card (grid - v), length q)"
  let ?R = "less_than <*lex*> less_than"
  have fin: "finite (grid - v)" for v :: "cell set"
    by (simp add: grid_def)
  have step: "(?m (?f d s), ?m s) \<in> ?R \<or> ?f d s = s" for d s
  proof (cases s)
    case (Pair v q)
    show ?thesis
    proof (cases "?f d s = s")
      case True
      then show ?thesis by simp
    next
      case False
      let ?n = "(x + fst d, y + snd d)"
      from False Pair have n: "?n \<notin> v" "?n \<in> grid" and eq: "?f d s = (insert ?n v, q @ [?n])"
        by (auto simp: flood_neighbor_def Let_def grid_def split: if_splits)
      have "grid - insert ?n v \<subset> grid - v"
        using n by blast
      then have "card (grid - insert ?n v) < card (grid - v)"
        by (rule psubset_card_mono [OF fin])
      then show ?thesis
        using eq Pair by simp
    qed
  qed
  have all: "(?m (fold ?f ds s), ?m s) \<in> ?R \<or> fold ?f ds s = s" for ds s
  proof (induction ds arbitrary: s)
    case Nil
    show ?case by simp
  next
    case (Cons d ds)
    have tr: "trans ?R" by (intro trans_lex_prod trans_less_than)
    from Cons.IH [of "?f d s"] step [of d s] show ?case
      by (auto dest: transD [OF tr])
  qed
  have "(?m (xb, ya), ?m (visited, queue)) \<in> ?R"
  proof -
    from all [of DIRS "(visited, butlast queue)"] sp
    consider "(?m (xb, ya), ?m (visited, butlast queue)) \<in> ?R"
      | "(xb, ya) = (visited, butlast queue)"
      by metis
    then show ?thesis
    proof cases
      case 1
      then show ?thesis using ne by (auto split: if_splits)
    next
      case 2
      then show ?thesis using ne by simp
    qed
  qed
  then show "((xb, ya, blocked), visited, queue, blocked)
      \<in> inv_image (less_than <*lex*> less_than) flood_measure"
    by (simp add: flood_measure_def)
qed

declare flood_fill_loop.simps [simp del]

definition flood_fill_count :: "cell \<Rightarrow> cell set \<Rightarrow> int" where
  "flood_fill_count start blocked = int (card (flood_fill_loop {start} [start] blocked))"

section \<open>Cycle (game.py, lines 132-153)\<close>

record Cycle =
  pos :: cell
  direction :: cell
  trail :: "cell set"
  alive :: bool

text \<open>
  \<open>Cycle(pos=p, direction=d)\<close>: the trail defaults to the empty set, \<open>alive\<close> to
  \<open>True\<close>, and \<open>__post_init__\<close> adds the position to the trail.
\<close>

definition Cycle_init :: "cell \<Rightarrow> cell \<Rightarrow> Cycle" where
  "Cycle_init p d = \<lparr>pos = p, direction = d, trail = insert p {}, alive = True\<rparr>"

text \<open>
  \<open>d = d or self.direction\<close>: a tuple of two integers is never falsy, so the
  default applies exactly when no argument is given.
\<close>

definition next_pos :: "Cycle \<Rightarrow> cell option \<Rightarrow> cell" where
  "next_pos c d =
     (let d' = (case d of None \<Rightarrow> direction c | Some v \<Rightarrow> v)
      in (fst (pos c) + fst d', snd (pos c) + snd d'))"

definition move :: "Cycle \<Rightarrow> Cycle" where
  "move c = (let nxt = next_pos c None in c\<lparr>pos := nxt, trail := insert nxt (trail c)\<rparr>)"

definition in_bounds :: "Cycle \<Rightarrow> cell option \<Rightarrow> bool" where
  "in_bounds c p =
     (case (case p of None \<Rightarrow> pos c | Some v \<Rightarrow> v) of
        (x, y) \<Rightarrow> 0 \<le> x \<and> x < COLS \<and> 0 \<le> y \<and> y < ROWS)"

section \<open>EnemyAgent (game.py, lines 159-243)\<close>

text \<open>
  The agent's own state is its plan and its tick counter. Its \<open>enemy\<close> and \<open>player\<close>
  attributes are references to the two cycles of the game; they are passed to each
  method here.
\<close>

record EnemyAgent =
  plan :: "cell list"
  ticks :: int

definition REPLAN_INTERVAL :: int where "REPLAN_INTERVAL = 3"

definition agent_blocked :: "Cycle \<Rightarrow> Cycle \<Rightarrow> cell set" where
  "agent_blocked e p = trail e \<union> trail p"

definition predict_step :: "int \<Rightarrow> int \<Rightarrow> cell \<Rightarrow> cell" where
  "predict_step dx dy = (\<lambda>(px, py).
     (let nx = px + dx; ny = py + dy
      in if 0 \<le> nx \<and> nx < COLS \<and> 0 \<le> ny \<and> ny < ROWS then (nx, ny) else (px, py)))"

definition predict_player :: "Cycle \<Rightarrow> nat \<Rightarrow> cell" where
  "predict_player p steps =
     (case direction p of (dx, dy) \<Rightarrow> (predict_step dx dy ^^ steps) (pos p))"

text \<open>The body of \<open>for d in DIRS\<close> in \<open>_survival_direction\<close> (lines 231-241).\<close>

definition survival_step :: "Cycle \<Rightarrow> cell set \<Rightarrow> cell \<Rightarrow> cell \<Rightarrow> cell \<times> int \<Rightarrow> cell \<times> int" where
  "survival_step e blocked opp d = (\<lambda>(best_dir, best_space).
     if d = opp then (best_dir, best_space)
     else (case next_pos e (Some d) of (nx, ny) \<Rightarrow>
       if \<not> (0 \<le> nx \<and> nx < COLS \<and> 0 \<le> ny \<and> ny < ROWS) then (best_dir, best_space)
       else if (nx, ny) \<in> blocked then (best_dir, best_space)
       else (let space = flood_fill_count (nx, ny) (blocked \<union> {(nx, ny)})
             in if space > best_space then (d, space) else (best_dir, best_space))))"

definition survival_direction :: "Cycle \<Rightarrow> cell set \<Rightarrow> cell" where
  "survival_direction e blocked =
     fst (fold (survival_step e blocked (opposite (direction e))) DIRS (direction e, -1))"

text \<open>
  The re-planning branch of \<open>decide\<close> (lines 201-208): the plan stored from the two
  searches. \<open>if path and len(path) > 1\<close> holds for a list of at least two cells.
\<close>

definition plan_of_path :: "cell list option \<Rightarrow> cell list" where
  "plan_of_path path =
     (case path of
        None \<Rightarrow> []
      | Some ps \<Rightarrow> if ps \<noteq> [] \<and> length ps > 1 then tl ps else [])"

definition replan :: "Cycle \<Rightarrow> Cycle \<Rightarrow> cell set \<Rightarrow> cell list" where
  "replan e p blocked =
     (let goal = predict_player p 5;
          path = astar (pos e) goal blocked;
          path = (if path = None then astar (pos e) (pos p) blocked else path)
      in plan_of_path path)"

text \<open>\<open>decide\<close> returns the chosen direction and the agent's new state.\<close>

definition decide :: "EnemyAgent \<Rightarrow> Cycle \<Rightarrow> Cycle \<Rightarrow> cell \<times> EnemyAgent" where
  "decide a e p =
     (let t = ticks a + 1;
          blocked = agent_blocked e p;
          pl = (if t mod REPLAN_INTERVAL = 0 \<or> plan a = [] then replan e p blocked else plan a)
      in case pl of
           [] \<Rightarrow> (survival_direction e blocked, \<lparr>plan = [], ticks = t\<rparr>)
         | nxt # rest \<Rightarrow>
             (let dx = fst nxt - fst (pos e);
                  dy = snd nxt - snd (pos e);
                  chosen = (dx, dy);
                  n = next_pos e (Some chosen)
              in if n \<notin> blocked \<and> in_bounds e (Some n)
                 then (chosen, \<lparr>plan = rest, ticks = t\<rparr>)
                 else (survival_direction e blocked, \<lparr>plan = rest, ticks = t\<rparr>)))"

section \<open>TronGame (game.py, lines 269-329 and 387-399)\<close>

datatype game_state = Playing | Win | Lose | Draw

record TronGame =
  player :: Cycle
  enemy :: Cycle
  agent :: EnemyAgent
  state :: game_state
  score :: int
  frame :: int

definition reset :: "TronGame \<Rightarrow> TronGame" where
  "reset g =
     \<lparr>player = Cycle_init (10, ROWS div 2) RIGHT,
      enemy = Cycle_init (COLS - 10, ROWS div 2) LEFT,
      agent = \<lparr>plan = [], ticks = 0\<rparr>,
      state = Playing,
      score = 0,
      frame = 0\<rparr>"

text \<open>The keys read by \<open>handle_input\<close>, and the result of \<open>pygame.key.get_pressed()\<close>.\<close>

datatype key = K_UP | K_w | K_DOWN | K_s | K_LEFT | K_a | K_RIGHT | K_d

definition handle_input :: "(key \<Rightarrow> bool) \<Rightarrow> TronGame \<Rightarrow> TronGame" where
  "handle_input keys g =
     (let d = direction (player g)
      in if (keys K_UP \<or> keys K_w) \<and> d \<noteq> DOWN
           then g\<lparr>player := (player g)\<lparr>direction := UP\<rparr>\<rparr>
         else if (keys K_DOWN \<or> keys K_s) \<and> d \<noteq> UP
           then g\<lparr>player := (player g)\<lparr>direction := DOWN\<rparr>\<rparr>
         else if (keys K_LEFT \<or> keys K_a) \<and> d \<noteq> RIGHT
           then g\<lparr>player := (player g)\<lparr>direction := LEFT\<rparr>\<rparr>
         else if (keys K_RIGHT \<or> keys K_d) \<and> d \<noteq> LEFT
           then g\<lparr>player := (player g)\<lparr>direction := RIGHT\<rparr>\<rparr>
         else g)"

definition update :: "TronGame \<Rightarrow> TronGame" where
  "update g =
     (if state g \<noteq> Playing then g
      else (case decide (agent g) (enemy g) (player g) of (new_dir, a) \<Rightarrow>
        (let p = player g;
             e = (enemy g)\<lparr>direction := new_dir\<rparr>;
             blocked = trail p \<union> trail e;
             p_nxt = next_pos p None;
             e_nxt = next_pos e None;
             p_crash = (\<not> in_bounds p (Some p_nxt) \<or> p_nxt \<in> blocked);
             e_crash = (\<not> in_bounds e (Some e_nxt) \<or> e_nxt \<in> blocked);
             head_on = (p_nxt = e_nxt);
             g1 = g\<lparr>enemy := e, agent := a\<rparr>
         in if p_crash \<and> e_crash then g1\<lparr>state := Draw\<rparr>
            else if p_crash \<or> head_on then g1\<lparr>state := Lose\<rparr>
            else if e_crash then g1\<lparr>state := Win, score := score g + 1\<rparr>
            else g1\<lparr>player := move p, enemy := move e, frame := frame g + 1\<rparr>)))"

text \<open>One pass of the \<open>run\<close> loop without a restart (lines 398-399).\<close>

definition run_frame :: "(key \<Rightarrow> bool) \<Rightarrow> TronGame \<Rightarrow> TronGame" where
  "run_frame keys g = update (handle_input keys g)"

section \<open>Notions used to state the properties\<close>

text \<open>
  A position used for concrete runs: the player at \<open>(5, 5)\<close> heading right, the
  pursuer at \<open>(7, 5)\<close> heading left, and the agent holding the plan \<open>pl\<close>.
\<close>

definition duel_game :: "cell list \<Rightarrow> TronGame" where
  "duel_game pl =
     \<lparr>player = Cycle_init (5, 5) RIGHT,
      enemy = Cycle_init (7, 5) LEFT,
      agent = \<lparr>plan = pl, ticks = 0\<rparr>,
      state = Playing,
      score = 0,
      frame = 0\<rparr>"

text \<open>The key state with exactly one key held down, and the heading each key asks for.\<close>

definition press :: "key \<Rightarrow> key \<Rightarrow> bool" where
  "press k = (\<lambda>k'. k' = k)"

definition key_dir :: "key \<Rightarrow> cell" where
  "key_dir k = (case k of K_UP \<Rightarrow> UP | K_w \<Rightarrow> UP | K_DOWN \<Rightarrow> DOWN | K_s \<Rightarrow> DOWN
                 | K_LEFT \<Rightarrow> LEFT | K_a \<Rightarrow> LEFT | K_RIGHT \<Rightarrow> RIGHT | K_d \<Rightarrow> RIGHT)"

text \<open>A run of frames, one key state per frame, and the key state with no key held.\<close>

definition run_frames :: "(key \<Rightarrow> bool) list \<Rightarrow> TronGame \<Rightarrow> TronGame" where
  "run_frames ks g = fold run_frame ks g"

definition no_keys :: "key \<Rightarrow> bool" where
  "no_keys = (\<lambda>k. False)"

text \<open>The same position after the player has lost.\<close>

definition lost_game :: TronGame where
  "lost_game = (duel_game [])\<lparr>state := Lose\<rparr>"

text \<open>
  Paths on the grid. A step leads to one of the four neighbours and must land on a cell of
  the grid that is not blocked; the first cell of a path is not constrained, as the
  search never tests its start.
\<close>

definition adjacent :: "cell \<Rightarrow> cell \<Rightarrow> bool" where
  "adjacent a b = (\<exists>d \<in> set DIRS. b = (fst a + fst d, snd a + snd d))"

definition free_step :: "cell set \<Rightarrow> cell \<Rightarrow> cell \<Rightarrow> bool" where
  "free_step blocked a b = (adjacent a b \<and> b \<in> grid \<and> b \<notin> blocked)"

fun grid_path :: "cell set \<Rightarrow> cell list \<Rightarrow> bool" where
  "grid_path blocked [] = False"
| "grid_path blocked [c] = True"
| "grid_path blocked (c # d # cs) = (free_step blocked c d \<and> grid_path blocked (d # cs))"

definition path_between :: "cell set \<Rightarrow> cell \<Rightarrow> cell \<Rightarrow> cell list \<Rightarrow> bool" where
  "path_between blocked s t p = (grid_path blocked p \<and> hd p = s \<and> last p = t)"

text \<open>
  The invariant of the search loop: the goal is not closed; each entry carries a path
  from the start to its node, with \<open>g\<close> its number of steps and \<open>f = g + h\<close>; and each
  path from the start whose last cell is open and whose last but one cell is closed (or
  which is the start alone) has an entry for its last cell that is no longer than it.
\<close>

definition astar_inv :: "cell \<Rightarrow> cell \<Rightarrow> cell set \<Rightarrow> entry list \<Rightarrow> cell set \<Rightarrow> bool" where
  "astar_inv s goal blocked open_list closed =
     (goal \<notin> closed \<and>
      (\<forall>f g n p. (f, g, n, p) \<in> set open_list \<longrightarrow>
         f = g + heuristic n goal \<and> path_between blocked s n p \<and> int (length p) = g + 1) \<and>
      (\<forall>q. grid_path blocked q \<and> hd q = s \<and> last q \<notin> closed \<and>
           (length q = 1 \<or> q ! (length q - 2) \<in> closed) \<longrightarrow>
         (\<exists>f g p. (f, g, last q, p) \<in> set open_list \<and> g + 1 \<le> int (length q))))"

text \<open>The entries pushed when \<open>c\<close> is expanded along the directions \<open>ds\<close>.\<close>

definition new_entries :: "cell set \<Rightarrow> cell set \<Rightarrow> cell \<Rightarrow> int \<Rightarrow> cell \<Rightarrow> cell list \<Rightarrow> cell list \<Rightarrow> entry set" where
  "new_entries C B goal g c p ds =
     {(g + 1 + heuristic n goal, g + 1, n, p @ [n]) | n d.
        d \<in> set ds \<and> n = (fst c + fst d, snd c + snd d) \<and> n \<notin> C \<and> n \<in> grid \<and> n \<notin> B}"

text \<open>
  The cells reachable from \<open>start\<close>: the start itself, and every cell reached from a
  reachable cell by a step to a neighbouring, in-bounds, non-blocked cell.
\<close>

inductive_set reachable_cells :: "cell \<Rightarrow> cell set \<Rightarrow> cell set"
  for start :: cell and blocked :: "cell set"
where
  start: "start \<in> reachable_cells start blocked"
| step: "c \<in> reachable_cells start blocked \<Longrightarrow> free_step blocked c n \<Longrightarrow>
         n \<in> reachable_cells start blocked"

text \<open>
  The invariant of the flood-fill loop: the visited cells are reachable and include the
  start and the queue, and every visited cell that is no longer queued has all its free
  neighbours visited.
\<close>

definition flood_inv :: "cell \<Rightarrow> cell set \<Rightarrow> cell set \<Rightarrow> cell list \<Rightarrow> bool" where
  "flood_inv start blocked visited queue =
     (start \<in> visited \<and> visited \<subseteq> reachable_cells start blocked \<and> set queue \<subseteq> visited \<and>
      (\<forall>c n. c \<in> visited \<and> c \<notin> set queue \<and> free_step blocked c n \<longrightarrow> n \<in> visited))"

text \<open>The free cells next to \<open>c\<close> along the directions \<open>ds\<close>.\<close>

definition free_neighbors :: "cell set \<Rightarrow> cell \<Rightarrow> cell list \<Rightarrow> cell set" where
  "free_neighbors blocked c ds =
     {n. \<exists>d \<in> set ds. n = (fst c + fst d, snd c + snd d) \<and> n \<in> grid \<and> n \<notin> blocked}"

text \<open>
  The breadth-first reading of the same loop, for comparison with the source's: the cell
  taken from the queue is the oldest one (\<open>queue.pop(0)\<close>) instead of the newest.
\<close>

function flood_fill_loop_bfs :: "cell set \<Rightarrow> cell list \<Rightarrow> cell set \<Rightarrow> cell set" where
  "flood_fill_loop_bfs visited queue blocked =
     (if queue = [] then visited
      else (case hd queue of (x, y) \<Rightarrow>
        (case fold (flood_neighbor blocked x y) DIRS (visited, tl queue) of
           (visited', queue') \<Rightarrow> flood_fill_loop_bfs visited' queue' blocked)))"
  by pat_completeness auto
termination
proof (relation "inv_image (less_than <*lex*> less_than) flood_measure")
  show "wf (inv_image (less_than <*lex*> less_than) flood_measure)"
    by (intro wf_inv_image wf_lex_prod wf_less_than)
next
  fix visited :: "cell set" and queue :: "cell list" and blocked :: "cell set"
    and x y :: int and xb :: "cell set" and ya :: "cell list"
  assume ne: "queue \<noteq> []"
    and sp: "(xb, ya) = fold (flood_neighbor blocked x y) DIRS (visited, tl queue)"
  let ?f = "flood_neighbor blocked x y"
  let ?m = "\<lambda>(v, q). (card (grid - v), length q)"
  let ?R = "less_than <*lex*> less_than"
  have fin: "finite (grid - v)" for v :: "cell set"
    by (simp add: grid_def)
  have step: "(?m (?f d s), ?m s) \<in> ?R \<or> ?f d s = s" for d s
  proof (cases s)
    case (Pair v q)
    show ?thesis
    proof (cases "?f d s = s")
      case True
      then show ?thesis by simp
    next
      case False
      let ?n = "(x + fst d, y + snd d)"
      from False Pair have n: "?n \<notin> v" "?n \<in> grid" and eq: "?f d s = (insert ?n v, q @ [?n])"
        by (auto simp: flood_neighbor_def Let_def grid_def split: if_splits)
      have "grid - insert ?n v \<subset> grid - v"
        using n by blast
      then have "card (grid - insert ?n v) < card (grid - v)"
        by (rule psubset_card_mono [OF fin])
      then show ?thesis
        using eq Pair by simp
    qed
  qed
  have all: "(?m (fold ?f ds s), ?m s) \<in> ?R \<or> fold ?f ds s = s" for ds s
  proof (induction ds arbitrary: s)
    case Nil
    show ?case by simp
  next
    case (Cons d ds)
    have tr: "trans ?R" by (intro trans_lex_prod trans_less_than)
    from Cons.IH [of "?f d s"] step [of d s] show ?case
      by (auto dest: transD [OF tr])
  qed
  have "(?m (xb, ya), ?m (visited, queue)) \<in> ?R"
  proof -
    from all [of DIRS "(visited, tl queue)"] sp
    consider "(?m (xb, ya), ?m (visited, tl queue)) \<in> ?R"
      | "(xb, ya) = (visited, tl queue)"
      by metis
    then show ?thesis
    proof cases
      case 1
      then show ?thesis using ne by (auto split: if_splits)
    next
      case 2
      then show ?thesis using ne by simp
    qed
  qed
  then show "((xb, ya, blocked), visited, queue, blocked)
      \<in> inv_image (less_than <*lex*> less_than) flood_measure"
    by (simp add: flood_measure_def)
qed

declare flood_fill_loop_bfs.simps [simp del]

definition flood_fill_count_bfs :: "cell \<Rightarrow> cell set \<Rightarrow> int" where
  "flood_fill_count_bfs start blocked = int (card (flood_fill_loop_bfs {start} [start] blocked))"

text \<open>
  Obstacles around \<open>(1, 1)\<close> that leave two free cells above it, two below it and one
  to its right.
\<close>

definition pocket :: "cell set" where
  "pocket = {(1, 1), (2, 0), (0, 1), (2, 2), (1, 3), (0, 3), (3, 1)}"

text \<open>
  The survival fallback: a direction is a candidate when it is not the reverse of the
  pursuer's heading and its next cell is a free cell of the grid; its open space is the
  flood-fill count from that cell, the cell itself added to the obstacles.
\<close>

definition survival_candidate :: "Cycle \<Rightarrow> cell set \<Rightarrow> cell \<Rightarrow> bool" where
  "survival_candidate e blocked d =
     (d \<noteq> opposite (direction e) \<and> next_pos e (Some d) \<in> grid \<and> next_pos e (Some d) \<notin> blocked)"

definition open_space :: "Cycle \<Rightarrow> cell set \<Rightarrow> cell \<Rightarrow> int" where
  "open_space e blocked d =
     flood_fill_count (next_pos e (Some d)) (insert (next_pos e (Some d)) blocked)"

text \<open>A pursuer at \<open>(1, 1)\<close> heading right, for the obstacles of \<open>pocket\<close>.\<close>

definition pocket_cycle :: Cycle where
  "pocket_cycle = \<lparr>pos = (1, 1), direction = RIGHT, trail = {(1, 1)}, alive = True\<rparr>"

text \<open>Both trails are finite sets and hold their owner's position.\<close>

definition trails_ok :: "TronGame \<Rightarrow> bool" where
  "trails_ok g =
     (finite (trail (player g)) \<and> finite (trail (enemy g)) \<and>
      pos (player g) \<in> trail (player g) \<and> pos (enemy g) \<in> trail (enemy g))"

section \<open>Auxiliary facts about a tick\<close>

lemma in_bounds_grid: "in_bounds c (Some n) = (n \<in> grid)"
  by (cases n) (auto simp: in_bounds_def grid_def)

lemma update_cases:
  assumes "state g = Playing"
  defines "e \<equiv> (enemy g)\<lparr>direction := fst (decide (agent g) (enemy g) (player g))\<rparr>"
  defines "p \<equiv> player g"
  defines "a \<equiv> snd (decide (agent g) (enemy g) (player g))"
  defines "blocked \<equiv> trail p \<union> trail e"
  defines "p_nxt \<equiv> next_pos p None"
  defines "e_nxt \<equiv> next_pos e None"
  defines "p_crash \<equiv> p_nxt \<notin> grid \<or> p_nxt \<in> blocked"
  defines "e_crash \<equiv> e_nxt \<notin> grid \<or> e_nxt \<in> blocked"
  shows "update g =
    (if p_crash \<and> e_crash then g\<lparr>enemy := e, agent := a, state := Draw\<rparr>
     else if p_crash \<or> p_nxt = e_nxt then g\<lparr>enemy := e, agent := a, state := Lose\<rparr>
     else if e_crash then g\<lparr>enemy := e, agent := a, state := Win, score := score g + 1\<rparr>
     else g\<lparr>enemy := move e, agent := a, player := move p, frame := frame g + 1\<rparr>)"
  using assms(1) unfolding assms(2-)
  by (simp add: update_def Let_def in_bounds_grid split: prod.splits)

section \<open>Tick resolution\<close>

text \<open>
  C1. On a tick taken in state \<open>Playing\<close>, let \<open>blocked\<close> be the union of both trails
  before the move, and let each entity's candidate cell be its position advanced by its
  heading (for the pursuer, the heading the agent has just decided). A candidate crashes
  when it lies outside the grid or in \<open>blocked\<close>. If both candidates crash the state
  becomes \<open>Draw\<close>; otherwise, if the player's candidate crashes or the two candidates
  are the same cell, it becomes \<open>Lose\<close>; otherwise, if the pursuer's candidate crashes,
  it becomes \<open>Win\<close> and the score grows by one; otherwise both entities move to their
  candidates, both trails gain the new cell, the frame counter grows by one and the state
  stays \<open>Playing\<close>. In particular a head-on meeting in a free cell of the grid gives
  \<open>Lose\<close>.
\<close>

theorem tick_resolution:
  fixes g :: TronGame
  defines "e \<equiv> (enemy g)\<lparr>direction := fst (decide (agent g) (enemy g) (player g))\<rparr>"
  defines "p \<equiv> player g"
  defines "blocked \<equiv> trail p \<union> trail e"
  defines "p_nxt \<equiv> next_pos p None"
  defines "e_nxt \<equiv> next_pos e None"
  defines "p_crash \<equiv> p_nxt \<notin> grid \<or> p_nxt \<in> blocked"
  defines "e_crash \<equiv> e_nxt \<notin> grid \<or> e_nxt \<in> blocked"
  assumes playing: "state g = Playing"
  shows "(p_crash \<and> e_crash \<longrightarrow> state (update g) = Draw) \<and>
    (\<not> (p_crash \<and> e_crash) \<and> (p_crash \<or> p_nxt = e_nxt) \<longrightarrow> state (update g) = Lose) \<and>
    (\<not> p_crash \<and> p_nxt \<noteq> e_nxt \<and> e_crash \<longrightarrow>
       state (update g) = Win \<and> score (update g) = score g + 1) \<and>
    (\<not> p_crash \<and> p_nxt \<noteq> e_nxt \<and> \<not> e_crash \<longrightarrow>
       state (update g) = Playing \<and>
       pos (player (update g)) = p_nxt \<and> pos (enemy (update g)) = e_nxt \<and>
       trail (player (update g)) = insert p_nxt (trail p) \<and>
       trail (enemy (update g)) = insert e_nxt (trail e) \<and>
       frame (update g) = frame g + 1 \<and> score (update g) = score g) \<and>
    (p_nxt = e_nxt \<and> p_nxt \<in> grid \<and> p_nxt \<notin> blocked \<longrightarrow> state (update g) = Lose)"
  using playing unfolding assms(1-7) update_cases [OF playing]
  by (auto simp: move_def Let_def)

theorem tick_resolution_witness:
  "state (duel_game [(6, 5)]) = Playing \<and> state (update (duel_game [(6, 5)])) = Lose"
  using tick_resolution [of "duel_game [(6, 5)]"]
  by (simp add: duel_game_def decide_def Let_def agent_blocked_def Cycle_init_def next_pos_def
      in_bounds_def COLS_def ROWS_def REPLAN_INTERVAL_def RIGHT_def LEFT_def grid_def)

section \<open>Player input\<close>

lemma update_player_direction: "direction (player (update g)) = direction (player g)"
  by (simp add: update_def Let_def move_def split: prod.splits)

lemma update_terminal: "state g \<noteq> Playing \<Longrightarrow> update g = g"
  by (simp add: update_def)

lemma handle_input_frame:
  "handle_input keys g = g\<lparr>player := (player g)\<lparr>direction := direction (player (handle_input keys g))\<rparr>\<rparr>"
  by (simp add: handle_input_def Let_def)

lemma opposite_DIRS [simp]:
  "opposite UP = DOWN" "opposite DOWN = UP" "opposite LEFT = RIGHT" "opposite RIGHT = LEFT"
  by (simp_all add: opposite_def UP_def DOWN_def LEFT_def RIGHT_def)

lemma DIRS_distinct [simp]:
  "UP \<noteq> DOWN" "UP \<noteq> LEFT" "UP \<noteq> RIGHT" "DOWN \<noteq> UP" "DOWN \<noteq> LEFT" "DOWN \<noteq> RIGHT"
  "LEFT \<noteq> UP" "LEFT \<noteq> DOWN" "LEFT \<noteq> RIGHT" "RIGHT \<noteq> UP" "RIGHT \<noteq> DOWN" "RIGHT \<noteq> LEFT"
  by (simp_all add: UP_def DOWN_def LEFT_def RIGHT_def)

lemma handle_input_DIRS:
  "direction (player g) \<in> set DIRS \<Longrightarrow> direction (player (handle_input keys g)) \<in> set DIRS"
  by (auto simp: handle_input_def Let_def DIRS_def)

lemma handle_input_no_reverse:
  "direction (player g) \<in> set DIRS \<Longrightarrow>
   direction (player (handle_input keys g)) \<noteq> opposite (direction (player g))"
  by (auto simp: handle_input_def Let_def DIRS_def)

lemma run_frame_direction:
  "direction (player (run_frame keys g)) = direction (player (handle_input keys g))"
  by (simp add: run_frame_def update_player_direction)

lemma run_frames_DIRS:
  "direction (player g) \<in> set DIRS \<Longrightarrow> direction (player (run_frames ks g)) \<in> set DIRS"
  unfolding run_frames_def
  by (induction ks arbitrary: g) (simp_all add: run_frame_direction handle_input_DIRS)

lemma handle_input_reverse_ignored:
  assumes "\<forall>k. keys k \<longrightarrow> key_dir k = opposite (direction (player g))"
  shows "handle_input keys g = g"
proof -
  let ?d = "direction (player g)"
  have r: "keys k \<Longrightarrow> ?d = opposite (key_dir k)" for k
    using assms by (auto simp: opposite_def)
  have c1: "\<not> ((keys K_UP \<or> keys K_w) \<and> ?d \<noteq> DOWN)"
    using r [of K_UP] r [of K_w] by (auto simp: key_dir_def)
  have c2: "\<not> ((keys K_DOWN \<or> keys K_s) \<and> ?d \<noteq> UP)"
    using r [of K_DOWN] r [of K_s] by (auto simp: key_dir_def)
  have c3: "\<not> ((keys K_LEFT \<or> keys K_a) \<and> ?d \<noteq> RIGHT)"
    using r [of K_LEFT] r [of K_a] by (auto simp: key_dir_def)
  have c4: "\<not> ((keys K_RIGHT \<or> keys K_d) \<and> ?d \<noteq> LEFT)"
    using r [of K_RIGHT] r [of K_d] by (auto simp: key_dir_def)
  show ?thesis
    unfolding handle_input_def Let_def using c1 c2 c3 c4 by (simp only: if_False)
qed

text \<open>
  C7, as the code has it. \<open>handle_input\<close> compares the requested heading with the
  heading held at the moment of the call. A call whose pressed keys all ask for the
  opposite of the current heading leaves the game unchanged, and no single call turns the
  heading into its opposite. The \<open>run\<close> loop calls \<open>handle_input\<close> once before each
  \<open>update\<close>; over any run of such frames the heading in force at a tick is never the
  opposite of the heading in force at the tick before.
\<close>

theorem no_reverse_per_frame:
  assumes "direction (player g) \<in> set DIRS"
  shows "((\<forall>k. keys k \<longrightarrow> key_dir k = opposite (direction (player g))) \<longrightarrow>
            handle_input keys g = g) \<and>
         direction (player (handle_input keys g)) \<noteq> opposite (direction (player g)) \<and>
         direction (player (run_frame keys (run_frames ks g)))
           \<noteq> opposite (direction (player (run_frames ks g)))"
proof -
  have d: "direction (player (run_frames ks g)) \<in> set DIRS"
    using assms by (rule run_frames_DIRS)
  show ?thesis
    using handle_input_reverse_ignored [of keys g] handle_input_no_reverse [OF assms, of keys]
      handle_input_no_reverse [OF d, of keys]
    by (simp add: run_frame_direction)
qed

theorem no_reverse_per_frame_witness:
  "direction (player (duel_game [])) \<in> set DIRS \<and>
   handle_input (press K_LEFT) (duel_game []) = duel_game [] \<and>
   direction (player (run_frame (press K_LEFT) (run_frames [press K_UP] (duel_game []))))
     \<noteq> opposite (direction (player (run_frames [press K_UP] (duel_game []))))"
  using no_reverse_per_frame [of "duel_game []" "press K_LEFT" "[press K_UP]"]
  by (simp add: duel_game_def Cycle_init_def DIRS_def press_def key_dir_def split: key.splits)

text \<open>
  C7, as stated, quantifies over any sequence of heading-set calls. Two calls between two
  ticks reverse the heading: after a tick taken heading right, a call asking for up
  followed by a frame asking for left makes the next tick run heading left.
\<close>

theorem double_call_reverses:
  "direction (player (run_frame (press K_LEFT) (handle_input (press K_UP)
       (run_frame no_keys (duel_game [(8, 5), (9, 5)])))))
   = opposite (direction (player (run_frame no_keys (duel_game [(8, 5), (9, 5)]))))"
  by (simp add: run_frame_direction handle_input_def Let_def update_player_direction press_def
      no_keys_def duel_game_def Cycle_init_def)

section \<open>Terminal states\<close>

text \<open>
  C5, as stated, fails for the heading: \<open>handle_input\<close> does not look at the game state,
  so in a lost game a key press still turns the player.
\<close>

theorem terminal_heading_changes:
  "state lost_game = Lose \<and>
   handle_input (press K_UP) lost_game \<noteq> lost_game \<and>
   direction (player (handle_input (press K_UP) lost_game)) = UP \<and>
   direction (player lost_game) = RIGHT"
  by (simp add: lost_game_def duel_game_def handle_input_def Let_def press_def Cycle_init_def)

text \<open>
  C5, as the code has it. In a terminal state \<open>update\<close> returns the game unchanged;
  \<open>handle_input\<close> changes nothing but, possibly, the player's heading, so the state,
  both positions, both trails, the pursuer's heading, the agent, the frame counter and the
  score stay as they are; a whole frame leaves the state terminal; \<open>reset\<close> returns to
  \<open>Playing\<close>.
\<close>

theorem terminal_absorbing:
  assumes "state g \<noteq> Playing"
  shows "update g = g \<and>
         handle_input keys g =
           g\<lparr>player := (player g)\<lparr>direction := direction (player (handle_input keys g))\<rparr>\<rparr> \<and>
         state (handle_input keys g) = state g \<and>
         state (run_frame keys g) = state g \<and>
         state (reset g) = Playing"
proof -
  have "state (handle_input keys g) = state g"
    by (simp add: handle_input_def Let_def)
  with assms show ?thesis
    using handle_input_frame [of keys g]
    by (simp add: run_frame_def update_terminal reset_def)
qed

theorem terminal_absorbing_witness:
  "state lost_game \<noteq> Playing \<and> update lost_game = lost_game \<and>
   state (run_frame (press K_UP) lost_game) = Lose \<and> state (reset lost_game) = Playing"
  using terminal_absorbing [of lost_game "press K_UP"]
  by (simp add: lost_game_def)

section \<open>Trails\<close>

lemma update_cases2:
  assumes "state g = Playing"
  defines "e \<equiv> (enemy g)\<lparr>direction := fst (decide (agent g) (enemy g) (player g))\<rparr>"
  defines "p \<equiv> player g"
  defines "a \<equiv> snd (decide (agent g) (enemy g) (player g))"
  defines "blocked \<equiv> trail p \<union> trail e"
  defines "p_nxt \<equiv> next_pos p None"
  defines "e_nxt \<equiv> next_pos e None"
  shows "(state (update g) = Playing \<and> player (update g) = move p \<and> enemy (update g) = move e \<and>
          p_nxt \<notin> blocked \<and> e_nxt \<notin> blocked) \<or>
         (state (update g) \<noteq> Playing \<and> player (update g) = p \<and> enemy (update g) = e)"
  unfolding assms(2-) update_cases [OF assms(1)]
  by (simp add: assms(1))

lemma update_trails:
  assumes "finite (trail (player g))" and "finite (trail (enemy g))"
    and "pos (player g) \<in> trail (player g)" and "pos (enemy g) \<in> trail (enemy g)"
  shows "pos (Cycle_init c d) \<in> trail (Cycle_init c d) \<and>
    pos (player (update g)) \<in> trail (player (update g)) \<and>
    pos (enemy (update g)) \<in> trail (enemy (update g)) \<and>
    finite (trail (player (update g))) \<and> finite (trail (enemy (update g))) \<and>
    trail (player g) \<subseteq> trail (player (update g)) \<and>
    trail (enemy g) \<subseteq> trail (enemy (update g)) \<and>
    ((card (trail (player (update g))) = card (trail (player g)) + 1)
       = (pos (player (update g)) \<noteq> pos (player g))) \<and>
    ((card (trail (enemy (update g))) = card (trail (enemy g)) + 1)
       = (pos (enemy (update g)) \<noteq> pos (enemy g))) \<and>
    ((pos (player (update g)) \<noteq> pos (player g)) = (state g = Playing \<and> state (update g) = Playing)) \<and>
    ((pos (enemy (update g)) \<noteq> pos (enemy g)) = (state g = Playing \<and> state (update g) = Playing)) \<and>
    (state (update g) \<noteq> Playing \<longrightarrow>
       trail (player (update g)) = trail (player g) \<and> trail (enemy (update g)) = trail (enemy g))"
proof (cases "state g = Playing")
  case False
  then have "update g = g" by (rule update_terminal)
  with False assms show ?thesis by (simp add: Cycle_init_def)
next
  case True
  let ?e = "(enemy g)\<lparr>direction := fst (decide (agent g) (enemy g) (player g))\<rparr>"
  from update_cases2 [OF True] show ?thesis
  proof
    assume m: "state (update g) = Playing \<and> player (update g) = move (player g) \<and>
      enemy (update g) = move ?e \<and>
      next_pos (player g) None \<notin> trail (player g) \<union> trail ?e \<and>
      next_pos ?e None \<notin> trail (player g) \<union> trail ?e"
    then have p: "next_pos (player g) None \<notin> trail (player g)"
      and e: "next_pos ?e None \<notin> trail (enemy g)" by simp_all
    from p assms(3) have p': "next_pos (player g) None \<noteq> pos (player g)" by metis
    from e assms(4) have e': "next_pos ?e None \<noteq> pos (enemy g)" by metis
    show ?thesis
      using m True assms p e p' e'
      by (simp add: move_def Let_def Cycle_init_def subset_insertI)
  next
    assume "state (update g) \<noteq> Playing \<and> player (update g) = player g \<and> enemy (update g) = ?e"
    then show ?thesis
      using assms by (simp add: Cycle_init_def)
  qed
qed

lemma update_trails_ok: "trails_ok g \<Longrightarrow> trails_ok (update g)"
  using update_trails [of g] by (simp add: trails_ok_def)

lemma handle_input_trails_ok: "trails_ok (handle_input keys g) = trails_ok g"
  by (simp add: trails_ok_def handle_input_def Let_def)

lemma run_frames_trails_ok: "trails_ok g \<Longrightarrow> trails_ok (run_frames ks g)"
  unfolding run_frames_def
proof (induction ks arbitrary: g)
  case Nil
  then show ?case by simp
next
  case (Cons k ks)
  from Cons.prems have "trails_ok (run_frame k g)"
    by (simp add: run_frame_def update_trails_ok handle_input_trails_ok)
  then have "trails_ok (fold run_frame ks (run_frame k g))"
    by (rule Cons.IH)
  then show ?case by simp
qed

lemma reset_trails_ok: "trails_ok (reset g)"
  by (simp add: trails_ok_def reset_def Cycle_init_def)

text \<open>
  C4. A cycle is created with its position in its trail. If both trails are finite sets
  (as Python sets are) and each holds its owner's position, then after \<open>update\<close> the
  same is true again, each trail contains the trail it was, and a trail has exactly one
  cell more precisely when its owner has changed position, which happens precisely when
  the tick started and ended in \<open>Playing\<close>; a tick that ends in a terminal state leaves
  both trails as they were. The hypothesis holds throughout a game: after \<open>reset\<close> and
  any number of frames both trails are finite and hold their owner's position.
\<close>

theorem trail_invariant:
  assumes "finite (trail (player g))" and "finite (trail (enemy g))"
    and "pos (player g) \<in> trail (player g)" and "pos (enemy g) \<in> trail (enemy g)"
  shows "pos (Cycle_init c d) \<in> trail (Cycle_init c d) \<and>
    pos (player (update g)) \<in> trail (player (update g)) \<and>
    pos (enemy (update g)) \<in> trail (enemy (update g)) \<and>
    finite (trail (player (update g))) \<and> finite (trail (enemy (update g))) \<and>
    trail (player g) \<subseteq> trail (player (update g)) \<and>
    trail (enemy g) \<subseteq> trail (enemy (update g)) \<and>
    ((card (trail (player (update g))) = card (trail (player g)) + 1)
       = (pos (player (update g)) \<noteq> pos (player g))) \<and>
    ((card (trail (enemy (update g))) = card (trail (enemy g)) + 1)
       = (pos (enemy (update g)) \<noteq> pos (enemy g))) \<and>
    ((pos (player (update g)) \<noteq> pos (player g)) = (state g = Playing \<and> state (update g) = Playing)) \<and>
    ((pos (enemy (update g)) \<noteq> pos (enemy g)) = (state g = Playing \<and> state (update g) = Playing)) \<and>
    (state (update g) \<noteq> Playing \<longrightarrow>
       trail (player (update g)) = trail (player g) \<and> trail (enemy (update g)) = trail (enemy g)) \<and>
    trails_ok (run_frames ks (reset h))"
  using update_trails [OF assms, of c d] run_frames_trails_ok [OF reset_trails_ok, of ks h]
  by blast

theorem trail_invariant_witness:
  "finite (trail (player (duel_game [(8, 5)]))) \<and> finite (trail (enemy (duel_game [(8, 5)]))) \<and>
   pos (player (duel_game [(8, 5)])) \<in> trail (player (duel_game [(8, 5)])) \<and>
   pos (enemy (duel_game [(8, 5)])) \<in> trail (enemy (duel_game [(8, 5)])) \<and>
   trail (player (update (duel_game [(8, 5)]))) = {(5, 5), (6, 5)} \<and>
   trail (enemy (update (duel_game [(8, 5)]))) = {(7, 5), (8, 5)} \<and>
   card (trail (player (update (duel_game [(8, 5)])))) = card (trail (player (duel_game [(8, 5)]))) + 1 \<and>
   trails_ok (run_frames [no_keys, press K_UP] (reset (duel_game [])))"
proof -
  have g: "finite (trail (player (duel_game [(8, 5)])))" "finite (trail (enemy (duel_game [(8, 5)])))"
    "pos (player (duel_game [(8, 5)])) \<in> trail (player (duel_game [(8, 5)]))"
    "pos (enemy (duel_game [(8, 5)])) \<in> trail (enemy (duel_game [(8, 5)]))"
    by (simp_all add: duel_game_def Cycle_init_def)
  have u: "update (duel_game [(8, 5)]) =
    \<lparr>player = \<lparr>pos = (6, 5), direction = RIGHT, trail = {(6, 5), (5, 5)}, alive = True\<rparr>,
     enemy = \<lparr>pos = (8, 5), direction = RIGHT, trail = {(8, 5), (7, 5)}, alive = True\<rparr>,
     agent = \<lparr>plan = [], ticks = 1\<rparr>, state = Playing, score = 0, frame = 1\<rparr>"
    by (simp add: update_def duel_game_def decide_def Let_def agent_blocked_def Cycle_init_def
        next_pos_def in_bounds_def COLS_def ROWS_def REPLAN_INTERVAL_def RIGHT_def LEFT_def move_def)
  from trail_invariant [OF g, of _ _ "[no_keys, press K_UP]" "duel_game []"] show ?thesis
    using g unfolding u by (auto simp: duel_game_def Cycle_init_def)
qed

section \<open>The search loop\<close>

subsection \<open>The heap and one iteration\<close>

lemma heappop_props:
  assumes "ol \<noteq> []" and "heappop ol = (e, rest)"
  shows "e \<in> set ol" and "\<forall>x \<in> set ol. e \<le> x" and "rest = remove1 e ol"
proof -
  from assms(2) have e: "e = Min (set ol)" and r: "rest = remove1 (Min (set ol)) ol"
    by (auto simp: heappop_def Let_def)
  show "e \<in> set ol" unfolding e using assms(1) by (intro Min_in) simp_all
  show "\<forall>x \<in> set ol. e \<le> x" unfolding e by simp
  show "rest = remove1 e ol" unfolding e r ..
qed

lemma entry_le_f:
  fixes f f' :: int and r r' :: "int \<times> cell \<times> cell list"
  shows "(f, r) \<le> (f', r') \<Longrightarrow> f \<le> f'"
  by (auto simp: less_eq_prod_def)

lemma astar_loop_step:
  assumes "ol \<noteq> []" and "heappop ol = ((f, g, c, p), rest)"
  shows "astar_loop ol C goal B =
    (if c = goal then Some p
     else if c \<in> C then astar_loop rest C goal B
     else astar_loop (fold (astar_neighbor (insert c C) B goal g c p) DIRS rest) (insert c C) goal B)"
  using assms by (subst astar_loop.simps) simp

lemma astar_loop_empty: "astar_loop [] C goal B = None"
  by (subst astar_loop.simps) simp

lemma astar_loop_induct [consumes 0, case_names empty goal skip expand]:
  assumes "\<And>C. P [] C"
    and "\<And>ol C f g p rest. ol \<noteq> [] \<Longrightarrow> heappop ol = ((f, g, goal, p), rest) \<Longrightarrow> P ol C"
    and "\<And>ol C f g c p rest. ol \<noteq> [] \<Longrightarrow> heappop ol = ((f, g, c, p), rest) \<Longrightarrow> c \<noteq> goal \<Longrightarrow>
           c \<in> C \<Longrightarrow> P rest C \<Longrightarrow> P ol C"
    and "\<And>ol C f g c p rest. ol \<noteq> [] \<Longrightarrow> heappop ol = ((f, g, c, p), rest) \<Longrightarrow> c \<noteq> goal \<Longrightarrow>
           c \<notin> C \<Longrightarrow> P (fold (astar_neighbor (insert c C) B goal g c p) DIRS rest) (insert c C) \<Longrightarrow>
           P ol C"
  shows "P ol C"
  using assms
proof (induction ol C goal B rule: astar_loop.induct)
  case (1 open_list closed goal blocked)
  note rules = "1.prems"
  show ?case
  proof (cases "open_list = []")
    case True
    then show ?thesis using rules(1) by simp
  next
    case False
    obtain f g c p rest where pop: "heappop open_list = ((f, g, c, p), rest)"
      by (metis prod.exhaust)
    show ?thesis
    proof (cases "c = goal")
      case True
      show ?thesis
        by (rule rules(2) [OF False pop [unfolded True]])
    next
      case ng: False
      show ?thesis
      proof (cases "c \<in> closed")
        case True
        have "P rest closed"
          by (rule "1.IH"(1) [OF False pop [symmetric] refl refl refl ng True rules])
        then show ?thesis
          by (rule rules(3) [OF False pop ng True])
      next
        case nc: False
        have "P (fold (astar_neighbor (insert c closed) blocked goal g c p) DIRS rest) (insert c closed)"
          by (rule "1.IH"(2) [OF False pop [symmetric] refl refl refl ng nc rules])
        then show ?thesis
          by (rule rules(4) [OF False pop ng nc])
      qed
    qed
  qed
qed

subsection \<open>Expanding a node\<close>

lemma set_astar_neighbor:
  "set (astar_neighbor C B goal g c p d ol) = set ol \<union> new_entries C B goal g c p [d]"
  by (auto simp: astar_neighbor_def new_entries_def Let_def heappush_def grid_def)

lemma new_entries_Cons:
  "new_entries C B goal g c p (d # ds) = new_entries C B goal g c p [d] \<union> new_entries C B goal g c p ds"
  by (auto simp: new_entries_def)

lemma set_fold_astar_neighbor:
  "set (fold (astar_neighbor C B goal g c p) ds ol) = set ol \<union> new_entries C B goal g c p ds"
proof (induction ds arbitrary: ol)
  case Nil
  show ?case by (simp add: new_entries_def)
next
  case (Cons d ds)
  show ?case
    unfolding fold_Cons comp_def Cons.IH set_astar_neighbor new_entries_Cons [of _ _ _ _ _ _ d ds]
    by blast
qed

lemma new_entries_adjacent:
  "(f', g', n, p') \<in> new_entries C B goal g c p DIRS \<longleftrightarrow>
     f' = g + 1 + heuristic n goal \<and> g' = g + 1 \<and> p' = p @ [n] \<and> free_step B c n \<and> n \<notin> C"
  by (auto simp: new_entries_def free_step_def adjacent_def) force

subsection \<open>A blocked goal is never reached\<close>

lemma astar_loop_blocked_goal:
  assumes "goal \<in> B"
  shows "(\<forall>f g n p. (f, g, n, p) \<in> set ol \<longrightarrow> n \<noteq> goal) \<Longrightarrow> astar_loop ol C goal B = None"
proof (induction ol C rule: astar_loop_induct [where goal = goal and B = B])
  case (empty C)
  show ?case by (rule astar_loop_empty)
next
  case (goal ol C f g p rest)
  from heappop_props(1) [OF goal(1,2)] goal(3) show ?case by blast
next
  case (skip ol C f g c p rest)
  from heappop_props(3) [OF skip(1,2)] have "set rest \<subseteq> set ol"
    by (simp add: set_remove1_subset)
  with skip.prems have "\<forall>f g n p. (f, g, n, p) \<in> set rest \<longrightarrow> n \<noteq> goal"
    by blast
  then have "astar_loop rest C goal B = None"
    by (rule skip.IH)
  with skip(3,4) show ?case
    by (simp add: astar_loop_step [OF skip(1,2)])
next
  case (expand ol C f g c p rest)
  from heappop_props(3) [OF expand(1,2)] have sub: "set rest \<subseteq> set ol"
    by (simp add: set_remove1_subset)
  have "n \<noteq> goal"
    if "(f', g', n, p') \<in> set (fold (astar_neighbor (insert c C) B goal g c p) DIRS rest)"
    for f' g' n p'
  proof -
    from that consider "(f', g', n, p') \<in> set rest"
      | "(f', g', n, p') \<in> new_entries (insert c C) B goal g c p DIRS"
      unfolding set_fold_astar_neighbor by blast
    then show ?thesis
    proof cases
      case 1
      with sub have "(f', g', n, p') \<in> set ol" by blast
      with expand.prems show ?thesis by blast
    next
      case 2
      then have "n \<notin> B" by (simp add: new_entries_adjacent free_step_def)
      with assms show ?thesis by blast
    qed
  qed
  then have "\<forall>f' g' n p'. (f', g', n, p') \<in> set (fold (astar_neighbor (insert c C) B goal g c p) DIRS rest)
      \<longrightarrow> n \<noteq> goal"
    by blast
  then show ?case
    using expand by (simp add: astar_loop_step [OF expand(1,2)])
qed

lemma heappop_single: "heappop [e] = (e, [])"
  by (simp add: heappop_def)

lemma astar_start:
  "astar start goal B =
    (if start = goal then Some [start]
     else astar_loop (fold (astar_neighbor {start} B goal 0 start [start]) DIRS []) {start} goal B)"
  unfolding astar_def heappush_def
  by (subst astar_loop_step [OF _ heappop_single]) simp_all

subsection \<open>The start may be blocked\<close>

lemma astar_neighbor_insert_closed:
  "s \<in> C \<Longrightarrow> astar_neighbor C (insert s B) goal g c p d ol = astar_neighbor C B goal g c p d ol"
  by (auto simp: astar_neighbor_def Let_def)

lemma astar_loop_insert_closed:
  "s \<in> C \<Longrightarrow> astar_loop ol C goal (insert s B) = astar_loop ol C goal B"
proof (induction ol C rule: astar_loop_induct [where goal = goal and B = B])
  case (empty C)
  show ?case by (simp add: astar_loop_empty)
next
  case (goal ol C f g p rest)
  show ?case by (simp add: astar_loop_step [OF goal(1,2)])
next
  case (skip ol C f g c p rest)
  then show ?case by (simp add: astar_loop_step [OF skip(1,2)])
next
  case (expand ol C f g c p rest)
  have "astar_neighbor (insert c C) (insert s B) goal g c p = astar_neighbor (insert c C) B goal g c p"
    using expand.prems by (intro ext astar_neighbor_insert_closed) simp
  with expand show ?case by (simp add: astar_loop_step [OF expand(1,2)])
qed

text \<open>
  C6. A search whose start is its goal returns the path \<open>[start]\<close>, whatever is
  blocked. For any goal, the search gives the same result whether or not the start is a
  member of \<open>blocked\<close>: the start is expanded without being tested, and only neighbours
  are rejected for being blocked.
\<close>

theorem astar_start_blocked:
  "astar start start blocked = Some [start] \<and>
   astar start goal (insert start blocked) = astar start goal blocked \<and>
   astar start goal blocked = astar start goal (blocked - {start})"
proof -
  have eq: "astar start goal (insert start B) = astar start goal B" for B
  proof -
    have "astar_neighbor {start} (insert start B) goal 0 start [start]
        = astar_neighbor {start} B goal 0 start [start]"
      by (intro ext astar_neighbor_insert_closed) simp
    then show ?thesis
      by (simp add: astar_start astar_loop_insert_closed)
  qed
  have "astar start goal blocked = astar start goal (blocked - {start})"
  proof (cases "start \<in> blocked")
    case True
    then have "blocked = insert start (blocked - {start})" by blast
    then show ?thesis using eq [of "blocked - {start}"] by simp
  next
    case False
    then show ?thesis by simp
  qed
  then show ?thesis
    using eq [of blocked] by (simp add: astar_start)
qed

theorem astar_start_blocked_witness:
  "astar (3, 3) (3, 3) {(3, 3)} = Some [(3, 3)] \<and>
   astar (0, 0) (1, 0) {(0, 0)} = Some [(0, 0), (1, 0)]"
proof -
  have ev: "astar (0, 0) (1, 0) {} = Some [(0, 0), (1, 0)]"
    by code_simp
  have "astar (3, 3) (3, 3) {(3, 3)} = Some [(3, 3)]"
    using astar_start_blocked [where start = "(3, 3)" and goal = "(3, 3)" and blocked = "{(3, 3)}"]
    by (rule conjunct1)
  moreover have "astar (0, 0) (1, 0) {(0, 0)} = astar (0, 0) (1, 0) {}"
    using astar_start_blocked [where start = "(0, 0)" and goal = "(1, 0)" and blocked = "{}"]
    by blast
  ultimately show ?thesis
    using ev by simp
qed

subsection \<open>Paths and the heuristic\<close>

lemma grid_path_nonempty: "grid_path B q \<Longrightarrow> q \<noteq> []"
  by (cases q) simp_all

lemma grid_path_snoc:
  "q \<noteq> [] \<Longrightarrow> grid_path B (q @ [n]) = (grid_path B q \<and> free_step B (last q) n)"
  by (induction B q rule: grid_path.induct) auto

lemma grid_path_step:
  "grid_path B q \<Longrightarrow> Suc i < length q \<Longrightarrow> free_step B (q ! i) (q ! Suc i)"
proof (induction B q arbitrary: i rule: grid_path.induct)
  case (3 B c d cs)
  then show ?case by (cases i) simp_all
qed simp_all

lemma grid_path_take:
  "grid_path B q \<Longrightarrow> 0 < k \<Longrightarrow> grid_path B (take k q)"
proof (induction B q arbitrary: k rule: grid_path.induct)
  case (3 B c d cs)
  from "3.prems" obtain j where k: "k = Suc j" by (cases k) simp_all
  show ?case
  proof (cases j)
    case 0
    with k show ?thesis by simp
  next
    case (Suc i)
    from "3.prems" have "grid_path B (d # cs)" by simp
    then have "grid_path B (take (Suc i) (d # cs))" by (rule "3.IH") simp
    with "3.prems" k Suc show ?thesis by simp
  qed
next
  case (2 B c)
  then show ?case by (cases k) simp_all
qed simp_all

lemma grid_path_drop:
  "grid_path B q \<Longrightarrow> k < length q \<Longrightarrow> grid_path B (drop k q)"
proof (induction B q arbitrary: k rule: grid_path.induct)
  case (3 B c d cs)
  then show ?case by (cases k) simp_all
qed simp_all

lemma heuristic_step: "free_step B a b \<Longrightarrow> heuristic a goal \<le> heuristic b goal + 1"
  by (auto simp: free_step_def adjacent_def DIRS_def UP_def DOWN_def LEFT_def RIGHT_def heuristic_def)

lemma heuristic_path_hd:
  "grid_path B q \<Longrightarrow> heuristic (hd q) goal \<le> heuristic (last q) goal + int (length q) - 1"
proof (induction B q rule: grid_path.induct)
  case (3 B c d cs)
  from 3 have "heuristic d goal \<le> heuristic (last (d # cs)) goal + int (length (d # cs)) - 1"
    by simp
  moreover from 3 have "free_step B c d" by simp
  then have "heuristic c goal \<le> heuristic d goal + 1"
    by (rule heuristic_step)
  ultimately show ?case by simp
qed simp_all

lemma heuristic_path_nth:
  assumes "grid_path B q" and "i < length q"
  shows "heuristic (q ! i) goal \<le> heuristic (last q) goal + int (length q) - 1 - int i"
proof -
  have "grid_path B (drop i q)" using assms by (rule grid_path_drop)
  from heuristic_path_hd [OF this, of goal] assms(2) show ?thesis
    by (simp add: hd_drop_conv_nth)
qed

subsection \<open>Optimality\<close>

lemma min_entry_bound:
  assumes inv: "astar_inv s goal B ol C"
    and ne: "ol \<noteq> []" and pop: "heappop ol = ((f, g, c, p), rest)"
    and nc: "c \<notin> C" and q: "path_between B s c q"
  shows "g + 1 \<le> int (length q)"
proof -
  from q have gp: "grid_path B q" and hd: "hd q = s" and lst: "last q = c"
    by (simp_all add: path_between_def)
  from gp have qne: "q \<noteq> []" by (rule grid_path_nonempty)
  define m where "m = (LEAST i. i < length q \<and> q ! i \<notin> C)"
  have "length q - 1 < length q \<and> q ! (length q - 1) \<notin> C"
    using qne nc lst by (simp add: last_conv_nth)
  then have m: "m < length q \<and> q ! m \<notin> C"
    unfolding m_def by (rule LeastI)
  have before: "q ! i \<in> C" if "i < m" for i
  proof -
    from that have "\<not> (i < length q \<and> q ! i \<notin> C)"
      unfolding m_def by (rule not_less_Least)
    with that m show ?thesis by simp
  qed
  let ?q = "take (Suc m) q"
  have len: "length ?q = Suc m" using m by simp
  have last': "last ?q = q ! m"
    using m by (simp add: take_Suc_conv_app_nth)
  have "grid_path B ?q" using gp by (rule grid_path_take) simp
  moreover have "hd ?q = s" using hd qne by (cases q) simp_all
  moreover have "last ?q \<notin> C" using m last' by simp
  moreover have "length ?q = 1 \<or> ?q ! (length ?q - 2) \<in> C"
  proof (cases m)
    case 0
    then show ?thesis using len by simp
  next
    case (Suc j)
    then have "?q ! (length ?q - 2) = q ! j" using len by simp
    moreover have "q ! j \<in> C" using Suc by (intro before) simp
    ultimately show ?thesis by simp
  qed
  ultimately obtain f' g' p' where e': "(f', g', last ?q, p') \<in> set ol" and g': "g' + 1 \<le> int (length ?q)"
    using inv unfolding astar_inv_def by blast
  from inv e' have f': "f' = g' + heuristic (q ! m) goal"
    unfolding astar_inv_def last' by blast
  from heappop_props(1) [OF ne pop] inv have f: "f = g + heuristic c goal"
    unfolding astar_inv_def by blast
  from heappop_props(2) [OF ne pop] e' have "f \<le> f'"
    by (blast dest: entry_le_f)
  moreover from heuristic_path_nth [OF gp, of m goal] m lst
  have "heuristic (q ! m) goal \<le> heuristic c goal + int (length q) - 1 - int m"
    by simp
  ultimately show ?thesis
    using f f' g' len by simp
qed

lemma astar_inv_init: "astar_inv s goal B [(heuristic s goal, 0, s, [s])] {}"
  unfolding astar_inv_def
proof (intro conjI allI impI)
  fix q assume a: "grid_path B q \<and> hd q = s \<and> last q \<notin> {} \<and>
    (length q = 1 \<or> q ! (length q - 2) \<in> {})"
  then have "q = [s]" by (cases q) simp_all
  then show "\<exists>f g p. (f, g, last q, p) \<in> set [(heuristic s goal, 0, s, [s])] \<and> g + 1 \<le> int (length q)"
    by simp
qed (simp_all add: path_between_def)

lemma astar_inv_skip:
  assumes inv: "astar_inv s goal B ol C"
    and ne: "ol \<noteq> []" and pop: "heappop ol = ((f, g, c, p), rest)" and c: "c \<in> C"
  shows "astar_inv s goal B rest C"
proof -
  have rest: "rest = remove1 (f, g, c, p) ol" by (rule heappop_props(3) [OF ne pop])
  then have sub: "set rest \<subseteq> set ol" by (simp add: set_remove1_subset)
  have keep: "(f', g', n, p') \<in> set rest" if "(f', g', n, p') \<in> set ol" "n \<notin> C" for f' g' n p'
  proof -
    from that c have "(f', g', n, p') \<noteq> (f, g, c, p)" by blast
    with that(1) show ?thesis unfolding rest by (simp add: in_set_remove1)
  qed
  show ?thesis
    unfolding astar_inv_def
  proof (intro conjI allI impI)
    show "goal \<notin> C" using inv by (simp add: astar_inv_def)
  next
    fix f' g' n p' assume "(f', g', n, p') \<in> set rest"
    with sub have "(f', g', n, p') \<in> set ol" by blast
    with inv show "f' = g' + heuristic n goal" "path_between B s n p'" "int (length p') = g' + 1"
      unfolding astar_inv_def by blast+
  next
    fix q assume a: "grid_path B q \<and> hd q = s \<and> last q \<notin> C \<and>
      (length q = 1 \<or> q ! (length q - 2) \<in> C)"
    with inv obtain f' g' p' where "(f', g', last q, p') \<in> set ol" "g' + 1 \<le> int (length q)"
      unfolding astar_inv_def by blast
    with a keep show "\<exists>f g p. (f, g, last q, p) \<in> set rest \<and> g + 1 \<le> int (length q)"
      by blast
  qed
qed

lemma astar_inv_expand:
  assumes inv: "astar_inv s goal B ol C"
    and ne: "ol \<noteq> []" and pop: "heappop ol = ((f, g, c, p), rest)"
    and ng: "c \<noteq> goal" and nc: "c \<notin> C"
  shows "astar_inv s goal B (fold (astar_neighbor (insert c C) B goal g c p) DIRS rest) (insert c C)"
proof -
  let ?ol = "fold (astar_neighbor (insert c C) B goal g c p) DIRS rest"
  have rest: "rest = remove1 (f, g, c, p) ol" by (rule heappop_props(3) [OF ne pop])
  then have sub: "set rest \<subseteq> set ol" by (simp add: set_remove1_subset)
  have e_in: "(f, g, c, p) \<in> set ol" by (rule heappop_props(1) [OF ne pop])
  with inv have p: "path_between B s c p" and lp: "int (length p) = g + 1"
    unfolding astar_inv_def by blast+
  have keep: "(f', g', n, p') \<in> set ?ol" if "(f', g', n, p') \<in> set ol" "n \<noteq> c" for f' g' n p'
  proof -
    from that have "(f', g', n, p') \<noteq> (f, g, c, p)" by blast
    with that(1) have "(f', g', n, p') \<in> set rest" unfolding rest by (simp add: in_set_remove1)
    then show ?thesis unfolding set_fold_astar_neighbor by blast
  qed
  show ?thesis
    unfolding astar_inv_def
  proof (intro conjI allI impI)
    show "goal \<notin> insert c C" using inv ng by (simp add: astar_inv_def)
  next
    fix f' g' n p' assume "(f', g', n, p') \<in> set ?ol"
    then consider "(f', g', n, p') \<in> set ol"
      | "(f', g', n, p') \<in> new_entries (insert c C) B goal g c p DIRS"
      unfolding set_fold_astar_neighbor using sub by blast
    then have "f' = g' + heuristic n goal \<and> path_between B s n p' \<and> int (length p') = g' + 1"
    proof cases
      case 1
      with inv show ?thesis unfolding astar_inv_def by blast
    next
      case 2
      then have *: "f' = g + 1 + heuristic n goal" "g' = g + 1" "p' = p @ [n]" "free_step B c n"
        by (simp_all add: new_entries_adjacent)
      from p have "p \<noteq> []" by (auto simp: path_between_def dest: grid_path_nonempty)
      with p * have "path_between B s n p'"
        by (simp add: path_between_def grid_path_snoc)
      with * lp show ?thesis by simp
    qed
    then show "f' = g' + heuristic n goal" "path_between B s n p'" "int (length p') = g' + 1"
      by simp_all
  next
    fix q assume a: "grid_path B q \<and> hd q = s \<and> last q \<notin> insert c C \<and>
      (length q = 1 \<or> q ! (length q - 2) \<in> insert c C)"
    then have gp: "grid_path B q" and hd: "hd q = s" and lc: "last q \<noteq> c" and lC: "last q \<notin> C"
      by simp_all
    show "\<exists>f g p. (f, g, last q, p) \<in> set ?ol \<and> g + 1 \<le> int (length q)"
    proof (cases "length q = 1 \<or> q ! (length q - 2) \<in> C")
      case True
      with inv gp hd lC obtain f' g' p' where "(f', g', last q, p') \<in> set ol" "g' + 1 \<le> int (length q)"
        unfolding astar_inv_def by blast
      with keep lc show ?thesis by blast
    next
      case False
      with a have l1: "length q \<noteq> 1" and pc: "q ! (length q - 2) = c" by auto
      from gp have "q \<noteq> []" by (rule grid_path_nonempty)
      with l1 have l2: "2 \<le> length q" by (cases "length q") auto
      let ?b = "butlast q"
      have bl: "length ?b = length q - 1" by simp
      have "?b = take (length q - 1) q" by (rule butlast_conv_take)
      moreover have "grid_path B (take (length q - 1) q)"
        using gp by (rule grid_path_take) (use l2 in simp)
      ultimately have gb: "grid_path B ?b" by simp
      have hb: "hd ?b = s" using hd l2 by (cases q) auto
      have bne: "?b \<noteq> []"
      proof
        assume "?b = []"
        then have "length ?b = 0" by (simp only: list.size)
        with l2 show False by simp
      qed
      then have "last ?b = ?b ! (length ?b - 1)"
        by (rule last_conv_nth)
      also have "\<dots> = q ! (length q - 2)"
        using l2 by (simp add: nth_butlast bl numeral_2_eq_2)
      finally have lb: "last ?b = c" using pc by simp
      from gb hb lb have "path_between B s c ?b" by (simp add: path_between_def)
      from min_entry_bound [OF inv ne pop nc this] have g: "g + 1 \<le> int (length q) - 1"
        using l2 by (simp add: bl)
      have "Suc (length q - 2) < length q" using l2 by simp
      with gp have "free_step B (q ! (length q - 2)) (q ! Suc (length q - 2))"
        by (rule grid_path_step)
      moreover have "q ! Suc (length q - 2) = last q"
        using l2 \<open>q \<noteq> []\<close> by (simp add: last_conv_nth Suc_diff_Suc numeral_2_eq_2)
      ultimately have fs: "free_step B c (last q)" using pc by simp
      have "(g + 1 + heuristic (last q) goal, g + 1, last q, p @ [last q])
          \<in> new_entries (insert c C) B goal g c p DIRS"
        using fs lc lC by (simp add: new_entries_adjacent)
      then have "(g + 1 + heuristic (last q) goal, g + 1, last q, p @ [last q]) \<in> set ?ol"
        unfolding set_fold_astar_neighbor by blast
      with g show ?thesis by force
    qed
  qed
qed

lemma astar_loop_optimal:
  assumes "astar_inv s goal B ol C" and "astar_loop ol C goal B = Some path"
  shows "path_between B s goal path \<and> (\<forall>q. path_between B s goal q \<longrightarrow> length path \<le> length q)"
  using assms
proof (induction ol C rule: astar_loop_induct [where goal = goal and B = B])
  case (empty C)
  then show ?case by (simp add: astar_loop_empty)
next
  case (goal ol C f g p rest)
  from goal.prems(2) have path: "path = p"
    by (simp add: astar_loop_step [OF goal(1,2)])
  from heappop_props(1) [OF goal(1,2)] goal.prems(1)
  have p: "path_between B s goal p" and lp: "int (length p) = g + 1"
    unfolding astar_inv_def by blast+
  from goal.prems(1) have "goal \<notin> C" by (simp add: astar_inv_def)
  then have "g + 1 \<le> int (length q)" if "path_between B s goal q" for q
    using min_entry_bound [OF goal.prems(1) goal(1,2) _ that] by simp
  then have "length p \<le> length q" if "path_between B s goal q" for q
    using that lp by fastforce
  with p show ?case unfolding path by blast
next
  case (skip ol C f g c p rest)
  from skip.prems(2) have "astar_loop rest C goal B = Some path"
    using skip(3,4) by (simp add: astar_loop_step [OF skip(1,2)])
  moreover have "astar_inv s goal B rest C"
    by (rule astar_inv_skip [OF skip.prems(1) skip(1,2,4)])
  ultimately show ?case by (rule skip.IH [rotated])
next
  case (expand ol C f g c p rest)
  from expand.prems(2)
  have "astar_loop (fold (astar_neighbor (insert c C) B goal g c p) DIRS rest) (insert c C) goal B = Some path"
    using expand(3,4) by (simp add: astar_loop_step [OF expand(1,2)])
  moreover have "astar_inv s goal B (fold (astar_neighbor (insert c C) B goal g c p) DIRS rest) (insert c C)"
    by (rule astar_inv_expand [OF expand.prems(1) expand(1,2,3,4)])
  ultimately show ?case by (rule expand.IH [rotated])
qed

text \<open>
  C2. If \<open>astar start goal blocked\<close> returns a path, it is a path from \<open>start\<close> to
  \<open>goal\<close> by steps to neighbouring, in-bounds, non-blocked cells, and no such path is
  shorter.
\<close>

theorem astar_shortest:
  assumes "astar start goal blocked = Some path"
  shows "path_between blocked start goal path \<and>
         (\<forall>q. path_between blocked start goal q \<longrightarrow> length path \<le> length q)"
  using astar_inv_init assms unfolding astar_def heappush_def
  by (rule astar_loop_optimal)

theorem astar_shortest_witness:
  "astar (0, 0) (2, 0) {(1, 0)} = Some [(0, 0), (0, 1), (1, 1), (2, 1), (2, 0)] \<and>
   path_between {(1, 0)} (0, 0) (2, 0) [(0, 0), (0, 1), (1, 1), (2, 1), (2, 0)] \<and>
   length [(0, 0), (0, 1), (1, 1), (2, 1), (2, 0) :: cell]
     \<le> length [(0, 0), (0, 1), (0, 2), (1, 2), (2, 2), (2, 1), (2, 0) :: cell]"
proof -
  have ev: "astar (0, 0) (2, 0) {(1, 0)} = Some [(0, 0), (0, 1), (1, 1), (2, 1), (2, 0)]"
    by code_simp
  have "path_between {(1, 0)} (0, 0) (2, 0) [(0, 0), (0, 1), (0, 2), (1, 2), (2, 2), (2, 1), (2, 0)]"
    by (simp add: path_between_def free_step_def adjacent_def DIRS_def UP_def DOWN_def LEFT_def
        RIGHT_def grid_def COLS_def ROWS_def)
  with astar_shortest [OF ev] show ?thesis
    using ev by blast
qed

text \<open>
  C10. If the goal differs from the start and is blocked, \<open>astar\<close> returns \<open>None\<close>.
  The player's position lies in the player's trail, hence in the agent's blocked set; so
  the fallback search of \<open>decide\<close> towards the player's position yields the empty plan,
  and the plan stored on re-planning is the one of the first search alone.
\<close>

theorem astar_blocked_goal:
  "(start \<noteq> goal \<and> goal \<in> blocked \<longrightarrow> astar start goal blocked = None) \<and>
   (pos p \<in> trail p \<longrightarrow>
      plan_of_path (astar (pos e) (pos p) (agent_blocked e p)) = [] \<and>
      replan e p (agent_blocked e p)
        = plan_of_path (astar (pos e) (predict_player p 5) (agent_blocked e p)))"
proof -
  have none: "astar s g B = None" if "s \<noteq> g" "g \<in> B" for s g B
  proof -
    have "astar s g B = astar_loop [(heuristic s g, 0, s, [s])] {} g B"
      by (simp add: astar_def heappush_def)
    also have "\<dots> = None"
      using that by (intro astar_loop_blocked_goal) auto
    finally show ?thesis .
  qed
  have plan: "plan_of_path (astar (pos e) (pos p) (agent_blocked e p)) = []" if "pos p \<in> trail p"
  proof (cases "pos e = pos p")
    case True
    then show ?thesis by (simp add: astar_start plan_of_path_def)
  next
    case False
    from that have "pos p \<in> agent_blocked e p" by (simp add: agent_blocked_def)
    with False have "astar (pos e) (pos p) (agent_blocked e p) = None" by (rule none)
    then show ?thesis by (simp add: plan_of_path_def)
  qed
  then have "replan e p (agent_blocked e p)
      = plan_of_path (astar (pos e) (predict_player p 5) (agent_blocked e p))" if "pos p \<in> trail p"
    using that by (simp add: replan_def Let_def) (simp add: plan_of_path_def)
  with none plan show ?thesis by blast
qed

theorem astar_blocked_goal_witness:
  "(7, 5) \<noteq> ((5, 5) :: cell) \<and> (5, 5) \<in> {(5, 5), (7, 5) :: cell} \<and>
   astar (7, 5) (5, 5) {(5, 5), (7, 5)} = None \<and>
   pos (player (duel_game [])) \<in> trail (player (duel_game [])) \<and>
   plan_of_path (astar (pos (enemy (duel_game []))) (pos (player (duel_game [])))
     (agent_blocked (enemy (duel_game [])) (player (duel_game [])))) = []"
  using astar_blocked_goal [where start = "(7, 5)" and goal = "(5, 5)" and blocked = "{(5, 5), (7, 5)}"
      and p = "player (duel_game [])" and e = "enemy (duel_game [])"]
  by (simp add: duel_game_def Cycle_init_def)

section \<open>Flood fill counts the reachable cells\<close>

lemma free_neighbors_DIRS: "free_neighbors B c DIRS = {n. free_step B c n}"
  by (auto simp: free_neighbors_def free_step_def adjacent_def)

lemma flood_neighbor_step:
  "flood_neighbor B x y d (V, Q) = (V', Q') \<Longrightarrow>
     V' = V \<union> free_neighbors B (x, y) [d] \<and> set Q' = set Q \<union> (free_neighbors B (x, y) [d] - V)"
  by (auto simp: flood_neighbor_def free_neighbors_def Let_def grid_def split: if_splits)

lemma free_neighbors_Cons:
  "free_neighbors B c (d # ds) = free_neighbors B c [d] \<union> free_neighbors B c ds"
  by (auto simp: free_neighbors_def)

lemma fold_flood_neighbor:
  "fold (flood_neighbor B x y) ds (V, Q) = (V', Q') \<Longrightarrow>
     V' = V \<union> free_neighbors B (x, y) ds \<and> set Q' = set Q \<union> (free_neighbors B (x, y) ds - V)"
proof (induction ds arbitrary: V Q)
  case Nil
  then show ?case by (simp add: free_neighbors_def)
next
  case (Cons d ds)
  obtain V1 Q1 where s1: "flood_neighbor B x y d (V, Q) = (V1, Q1)"
    by (cases "flood_neighbor B x y d (V, Q)")
  with Cons.prems have "fold (flood_neighbor B x y) ds (V1, Q1) = (V', Q')" by simp
  from Cons.IH [OF this] flood_neighbor_step [OF s1] show ?case
    unfolding free_neighbors_Cons [of B "(x, y)" d ds] by blast
qed

lemma reachable_closed:
  assumes "start \<in> V" and "\<And>c n. c \<in> V \<Longrightarrow> free_step B c n \<Longrightarrow> n \<in> V"
  shows "reachable_cells start B \<subseteq> V"
proof
  fix c assume "c \<in> reachable_cells start B"
  then show "c \<in> V"
    by induction (use assms in blast)+
qed

lemma flood_inv_step:
  assumes inv: "flood_inv start B V Q" and x: "x \<in> set Q"
    and rest: "set Q \<subseteq> insert x (set R)" "set R \<subseteq> set Q"
    and fold: "fold (flood_neighbor B (fst x) (snd x)) DIRS (V, R) = (V', Q')"
  shows "flood_inv start B V' Q'"
proof -
  let ?F = "{n. free_step B x n}"
  from fold_flood_neighbor [OF fold]
  have V': "V' = V \<union> ?F" and Q': "set Q' = set R \<union> (?F - V)"
    by (simp_all add: free_neighbors_DIRS)
  from inv have i1: "start \<in> V" and i2: "V \<subseteq> reachable_cells start B" and i3: "set Q \<subseteq> V"
    by (simp_all add: flood_inv_def)
  from inv have i4: "n \<in> V" if "c \<in> V" "c \<notin> set Q" "free_step B c n" for c n
    using that unfolding flood_inv_def by blast
  from i2 i3 x have xr: "x \<in> reachable_cells start B"
    by blast
  have F: "?F \<subseteq> reachable_cells start B"
  proof
    fix n assume "n \<in> ?F"
    then have "free_step B x n" by simp
    with xr show "n \<in> reachable_cells start B" by (rule reachable_cells.step)
  qed
  show ?thesis
    unfolding flood_inv_def
  proof (intro conjI allI impI)
    show "start \<in> V'" using i1 V' by simp
    show "V' \<subseteq> reachable_cells start B" using i2 F V' by simp
    show "set Q' \<subseteq> V'" using i3 rest(2) unfolding V' Q' by blast
  next
    fix c n assume a: "c \<in> V' \<and> c \<notin> set Q' \<and> free_step B c n"
    then have fs: "free_step B c n" by simp
    from a have cV: "c \<in> V" and cR: "c \<notin> set R" unfolding V' Q' by blast+
    show "n \<in> V'"
    proof (cases "c = x")
      case True
      with fs show ?thesis unfolding V' by simp
    next
      case False
      with cR rest(1) have "c \<notin> set Q" by blast
      with cV have "n \<in> V" using fs by (rule i4)
      then show ?thesis unfolding V' by simp
    qed
  qed
qed

lemma flood_fill_loop_reachable:
  "flood_inv start B V Q \<Longrightarrow> flood_fill_loop V Q B = reachable_cells start B"
proof (induction V Q B rule: flood_fill_loop.induct)
  case (1 visited queue blocked)
  show ?case
  proof (cases "queue = []")
    case True
    with "1.prems" have "reachable_cells start blocked \<subseteq> visited"
      by (intro reachable_closed) (auto simp: flood_inv_def)
    with "1.prems" True show ?thesis
      by (subst flood_fill_loop.simps) (auto simp: flood_inv_def)
  next
    case False
    obtain x y where l: "last queue = (x, y)" by (cases "last queue")
    obtain V' Q' where f: "fold (flood_neighbor blocked x y) DIRS (visited, butlast queue) = (V', Q')"
      by (cases "fold (flood_neighbor blocked x y) DIRS (visited, butlast queue)")
    have "set (butlast queue @ [last queue]) = set queue"
      by (simp only: append_butlast_last_id [OF False])
    then have q: "set queue = insert (x, y) (set (butlast queue))"
      using l by simp
    have "flood_inv start blocked V' Q'"
    proof (rule flood_inv_step [OF "1.prems", where x = "(x, y)" and R = "butlast queue"])
      show "(x, y) \<in> set queue" using q by simp
      show "set queue \<subseteq> insert (x, y) (set (butlast queue))"
        using q by simp
      show "set (butlast queue) \<subseteq> set queue"
        using q by blast
      show "fold (flood_neighbor blocked (fst (x, y)) (snd (x, y))) DIRS (visited, butlast queue) = (V', Q')"
        using f by simp
    qed
    then have "flood_fill_loop V' Q' blocked = reachable_cells start blocked"
      by (rule "1.IH" [OF False l [symmetric] f [symmetric]])
    then show ?thesis
      using False l f by (subst flood_fill_loop.simps) simp
  qed
qed

lemma flood_fill_loop_bfs_reachable:
  "flood_inv start B V Q \<Longrightarrow> flood_fill_loop_bfs V Q B = reachable_cells start B"
proof (induction V Q B rule: flood_fill_loop_bfs.induct)
  case (1 visited queue blocked)
  show ?case
  proof (cases "queue = []")
    case True
    with "1.prems" have "reachable_cells start blocked \<subseteq> visited"
      by (intro reachable_closed) (auto simp: flood_inv_def)
    with "1.prems" True show ?thesis
      by (subst flood_fill_loop_bfs.simps) (auto simp: flood_inv_def)
  next
    case False
    obtain x y where l: "hd queue = (x, y)" by (cases "hd queue")
    obtain V' Q' where f: "fold (flood_neighbor blocked x y) DIRS (visited, tl queue) = (V', Q')"
      by (cases "fold (flood_neighbor blocked x y) DIRS (visited, tl queue)")
    have "set (hd queue # tl queue) = set queue"
      by (simp only: list.collapse [OF False])
    then have q: "set queue = insert (x, y) (set (tl queue))"
      using l by simp
    have "flood_inv start blocked V' Q'"
    proof (rule flood_inv_step [OF "1.prems", where x = "(x, y)" and R = "tl queue"])
      show "(x, y) \<in> set queue" using q by simp
      show "set queue \<subseteq> insert (x, y) (set (tl queue))"
        using q by simp
      show "set (tl queue) \<subseteq> set queue"
        using q by blast
      show "fold (flood_neighbor blocked (fst (x, y)) (snd (x, y))) DIRS (visited, tl queue) = (V', Q')"
        using f by simp
    qed
    then have "flood_fill_loop_bfs V' Q' blocked = reachable_cells start blocked"
      by (rule "1.IH" [OF False l [symmetric] f [symmetric]])
    then show ?thesis
      using False l f by (subst flood_fill_loop_bfs.simps) simp
  qed
qed

lemma flood_inv_init: "flood_inv start blocked {start} [start]"
  by (auto simp: flood_inv_def reachable_cells.start)

text \<open>
  C8. \<open>flood_fill_count start blocked\<close> is the number of cells reachable from \<open>start\<close>
  by steps to neighbouring, in-bounds, non-blocked cells, the start included. The count
  does not depend on the order of traversal: taking the oldest queued cell instead of the
  newest gives the same number.
\<close>

theorem flood_fill_exact:
  "flood_fill_count start blocked = int (card (reachable_cells start blocked)) \<and>
   flood_fill_count_bfs start blocked = flood_fill_count start blocked"
  by (simp add: flood_fill_count_def flood_fill_count_bfs_def
      flood_fill_loop_reachable [OF flood_inv_init] flood_fill_loop_bfs_reachable [OF flood_inv_init])

theorem flood_fill_exact_witness:
  "flood_fill_count (1, 0) (insert (1, 0) pocket) = 2 \<and>
   card (reachable_cells (1, 0) (insert (1, 0) pocket)) = 2 \<and>
   flood_fill_count_bfs (1, 0) (insert (1, 0) pocket) = 2"
proof -
  have ev: "flood_fill_count (1, 0) (insert (1, 0) pocket) = 2"
    by code_simp
  from flood_fill_exact [of "(1, 0)" "insert (1, 0) pocket"] show ?thesis
    unfolding ev by simp
qed

section \<open>Termination\<close>

lemma astar_loop_total: "astar_loop_dom (ol, C, goal, B)"
proof (induction ol C goal B rule: astar_loop.induct)
  case (1 open_list closed goal blocked)
  show ?case
  proof (rule accpI)
    fix y assume "astar_loop_rel y (open_list, closed, goal, blocked)"
    then show "astar_loop_dom y"
      by (cases rule: astar_loop_rel.cases) (auto intro: 1)
  qed
qed

lemma flood_fill_loop_total: "flood_fill_loop_dom (V, Q, B)"
proof (induction V Q B rule: flood_fill_loop.induct)
  case (1 visited queue blocked)
  show ?case
  proof (rule accpI)
    fix y assume "flood_fill_loop_rel y (visited, queue, blocked)"
    then show "flood_fill_loop_dom y"
      by (cases rule: flood_fill_loop_rel.cases) (auto intro: 1)
  qed
qed

lemma reachable_all_blocked: "reachable_cells start (grid - {start}) = {start}"
proof
  show "reachable_cells start (grid - {start}) \<subseteq> {start}"
    by (rule reachable_closed) (auto simp: free_step_def)
  show "{start} \<subseteq> reachable_cells start (grid - {start})"
    by (simp add: reachable_cells.start)
qed

lemma astar_all_blocked:
  assumes "start \<noteq> goal"
  shows "astar start goal (grid - {start}) = None"
proof -
  let ?ol = "fold (astar_neighbor {start} (grid - {start}) goal 0 start [start]) DIRS []"
  have "set ?ol = {}"
    unfolding set_fold_astar_neighbor
    by (auto simp: new_entries_def)
  then have "?ol = []" by simp
  with assms show ?thesis
    by (simp add: astar_start astar_loop_empty)
qed

text \<open>
  C9. Both loops terminate on every input: each argument of \<open>astar_loop\<close> and of
  \<open>flood_fill_loop\<close> lies in the domain of the recursion, that is, no infinite chain of
  iterations starts from it (the measures are \<open>astar_measure\<close> and \<open>flood_measure\<close>).
  In particular, when every cell of the grid but the start is an obstacle, the search
  returns no path to any other goal, the path \<open>[start]\<close> to the start itself, and the
  flood fill counts one cell.
\<close>

theorem search_terminates:
  "astar_loop_dom (open_list, closed, goal, blocked) \<and>
   flood_fill_loop_dom (visited, queue, blocked) \<and>
   (start \<noteq> goal \<longrightarrow> astar start goal (grid - {start}) = None) \<and>
   astar start start (grid - {start}) = Some [start] \<and>
   flood_fill_count start (grid - {start}) = 1"
proof -
  have "flood_fill_count start (grid - {start}) = 1"
    by (simp add: flood_fill_count_def flood_fill_loop_reachable [OF flood_inv_init]
        reachable_all_blocked)
  then show ?thesis
    using astar_loop_total flood_fill_loop_total astar_all_blocked
    by (simp add: astar_start)
qed

theorem search_terminates_witness:
  "(0, 0) \<noteq> ((1, 0) :: cell) \<and> astar (0, 0) (1, 0) (grid - {(0, 0)}) = None \<and>
   flood_fill_count (0, 0) (grid - {(0, 0)}) = 1"
  using search_terminates [where start = "(0, 0)" and goal = "(1, 0)"]
  by simp

section \<open>The survival fallback\<close>

lemma survival_step_eq:
  "survival_step e B (opposite (direction e)) d (bd, bs) =
     (if survival_candidate e B d \<and> bs < open_space e B d then (d, open_space e B d) else (bd, bs))"
  by (cases "next_pos e (Some d)")
     (auto simp: survival_step_def survival_candidate_def open_space_def Let_def grid_def)

lemma fold_survival_step_none:
  assumes "\<forall>c \<in> set (filter (survival_candidate e B) ds). open_space e B c \<le> bs"
  shows "fold (survival_step e B (opposite (direction e))) ds (bd, bs) = (bd, bs)"
  using assms
proof (induction ds)
  case Nil
  show ?case by simp
next
  case (Cons d ds)
  from Cons.prems have "\<not> (survival_candidate e B d \<and> bs < open_space e B d)"
    by auto
  then have "survival_step e B (opposite (direction e)) d (bd, bs) = (bd, bs)"
    by (simp add: survival_step_eq)
  moreover from Cons.prems
  have "\<forall>c \<in> set (filter (survival_candidate e B) ds). open_space e B c \<le> bs"
    by simp
  ultimately show ?case
    using Cons.IH by simp
qed

lemma fold_survival_step_some:
  assumes "\<exists>c \<in> set (filter (survival_candidate e B) ds). bs < open_space e B c"
  shows "\<exists>r pre post.
    fold (survival_step e B (opposite (direction e))) ds (bd, bs) = (r, open_space e B r) \<and>
    filter (survival_candidate e B) ds = pre @ r # post \<and> bs < open_space e B r \<and>
    (\<forall>c \<in> set pre. open_space e B c < open_space e B r) \<and>
    (\<forall>c \<in> set post. open_space e B c \<le> open_space e B r)"
  using assms
proof (induction ds arbitrary: bd bs)
  case Nil
  then show ?case by simp
next
  case (Cons d ds)
  let ?sp = "open_space e B"
  let ?cs = "filter (survival_candidate e B) ds"
  let ?step = "survival_step e B (opposite (direction e))"
  show ?case
  proof (cases "survival_candidate e B d \<and> bs < ?sp d")
    case True
    then have st: "?step d (bd, bs) = (d, ?sp d)"
      by (simp add: survival_step_eq)
    have cs: "filter (survival_candidate e B) (d # ds) = d # ?cs" using True by simp
    show ?thesis
    proof (cases "\<exists>c \<in> set ?cs. ?sp d < ?sp c")
      case ex: True
      from Cons.IH [OF ex, of d] obtain r pre post where
        p: "fold ?step ds (d, ?sp d) = (r, ?sp r)" "?cs = pre @ r # post" "?sp d < ?sp r"
        "\<forall>c \<in> set pre. ?sp c < ?sp r" "\<forall>c \<in> set post. ?sp c \<le> ?sp r"
        by blast
      have 1: "fold ?step (d # ds) (bd, bs) = (r, ?sp r)" using st p(1) by simp
      have 2: "filter (survival_candidate e B) (d # ds) = (d # pre) @ r # post"
        unfolding cs using p(2) by simp
      have 3: "bs < ?sp r" using True p(3) by simp
      have 4: "\<forall>c \<in> set (d # pre). ?sp c < ?sp r" using p(3,4) by simp
      from 1 2 3 4 p(5) show ?thesis by blast
    next
      case nex: False
      then have "\<forall>c \<in> set ?cs. ?sp c \<le> ?sp d" by (simp add: not_less)
      then have "fold ?step ds (d, ?sp d) = (d, ?sp d)" by (rule fold_survival_step_none)
      then have 1: "fold ?step (d # ds) (bd, bs) = (d, ?sp d)" using st by simp
      have 2: "filter (survival_candidate e B) (d # ds) = [] @ d # ?cs"
        unfolding cs by simp
      have 3: "bs < ?sp d" using True by simp
      have 4: "\<forall>c \<in> set []. ?sp c < ?sp d" by simp
      have 5: "\<forall>c \<in> set ?cs. ?sp c \<le> ?sp d" using nex by (simp add: not_less)
      from 1 2 3 4 5 show ?thesis by blast
    qed
  next
    case False
    then have st: "?step d (bd, bs) = (bd, bs)"
      by (simp add: survival_step_eq)
    from Cons.prems False have ex: "\<exists>c \<in> set ?cs. bs < ?sp c"
      by (auto split: if_splits)
    from Cons.IH [OF ex, of bd] obtain r pre post where
      p: "fold ?step ds (bd, bs) = (r, ?sp r)" "?cs = pre @ r # post" "bs < ?sp r"
      "\<forall>c \<in> set pre. ?sp c < ?sp r" "\<forall>c \<in> set post. ?sp c \<le> ?sp r"
      by blast
    have 1: "fold ?step (d # ds) (bd, bs) = (r, ?sp r)" using st p(1) by simp
    show ?thesis
    proof (cases "survival_candidate e B d")
      case nc: False
      then have "filter (survival_candidate e B) (d # ds) = pre @ r # post"
        using p(2) by simp
      with 1 p(3,4,5) show ?thesis by blast
    next
      case c: True
      with False have le: "?sp d \<le> bs" by simp
      have 2: "filter (survival_candidate e B) (d # ds) = (d # pre) @ r # post"
        using c p(2) by simp
      have 4: "\<forall>c \<in> set (d # pre). ?sp c < ?sp r" using p(3,4) le by simp
      from 1 2 4 p(3,5) show ?thesis by blast
    qed
  qed
qed

lemma open_space_nonneg: "0 \<le> open_space e B d"
  by (simp add: open_space_def flood_fill_count_def)

text \<open>
  C3. The survival fallback goes through Up, Down, Left, Right in this order and keeps,
  as candidates, the directions that are not the exact reverse of the pursuer's heading
  and whose next cell is in bounds and not blocked; when the heading is one of the four
  directions, three directions are not its reverse. If there is no candidate the result
  is the current heading. Otherwise the result is a candidate whose flood-fill count
  (from its next cell, that cell added to the obstacles) is strictly greater than the
  count of every candidate before it and at least the count of every candidate after it:
  the earliest candidate of greatest count.
\<close>

theorem survival_direction_choice:
  fixes e :: Cycle and blocked :: "cell set"
  defines "opp \<equiv> opposite (direction e)"
  defines "cands \<equiv> filter (\<lambda>d. d \<noteq> opp \<and> next_pos e (Some d) \<in> grid \<and> next_pos e (Some d) \<notin> blocked)
                      [UP, DOWN, LEFT, RIGHT]"
  defines "space \<equiv> \<lambda>d. flood_fill_count (next_pos e (Some d)) (insert (next_pos e (Some d)) blocked)"
  defines "r \<equiv> survival_direction e blocked"
  shows "(direction e \<in> set DIRS \<longrightarrow> length (filter (\<lambda>d. d \<noteq> opp) [UP, DOWN, LEFT, RIGHT]) = 3) \<and>
         (cands = [] \<longrightarrow> r = direction e) \<and>
         (cands \<noteq> [] \<longrightarrow>
            (\<exists>pre post. cands = pre @ r # post \<and>
               (\<forall>c \<in> set pre. space c < space r) \<and> (\<forall>c \<in> set post. space c \<le> space r)))"
proof -
  have three: "length (filter (\<lambda>d. d \<noteq> opp) [UP, DOWN, LEFT, RIGHT]) = 3" if "direction e \<in> set DIRS"
    using that unfolding opp_def DIRS_def
    by (auto simp: opposite_def UP_def DOWN_def LEFT_def RIGHT_def)
  have cands: "cands = filter (survival_candidate e blocked) DIRS"
    unfolding cands_def opp_def DIRS_def survival_candidate_def ..
  have space: "space = open_space e blocked"
    unfolding space_def open_space_def ..
  let ?fold = "fold (survival_step e blocked (opposite (direction e))) DIRS (direction e, -1)"
  have r: "r = fst ?fold" unfolding r_def survival_direction_def ..
  have empty: "r = direction e" if "cands = []"
  proof -
    from that have "\<forall>c \<in> set (filter (survival_candidate e blocked) DIRS). open_space e blocked c \<le> -1"
      unfolding cands by simp
    then have "?fold = (direction e, -1)" by (rule fold_survival_step_none)
    then show ?thesis unfolding r by simp
  qed
  have best: "\<exists>pre post. cands = pre @ r # post \<and>
      (\<forall>c \<in> set pre. space c < space r) \<and> (\<forall>c \<in> set post. space c \<le> space r)" if "cands \<noteq> []"
  proof -
    from that obtain c where "c \<in> set cands" by (cases cands) auto
    moreover have "-1 < open_space e blocked c"
      using open_space_nonneg [of e blocked c] by simp
    ultimately have "\<exists>c \<in> set (filter (survival_candidate e blocked) DIRS). -1 < open_space e blocked c"
      unfolding cands by blast
    from fold_survival_step_some [OF this, of "direction e"] obtain r' pre post where
      p: "?fold = (r', open_space e blocked r')" "cands = pre @ r' # post"
      "\<forall>c \<in> set pre. open_space e blocked c < open_space e blocked r'"
      "\<forall>c \<in> set post. open_space e blocked c \<le> open_space e blocked r'"
      unfolding cands by blast
    from p(1) have "r = r'" unfolding r by simp
    with p(2,3,4) show ?thesis unfolding space by blast
  qed
  from three empty best show ?thesis by blast
qed

theorem survival_direction_choice_witness:
  "direction pocket_cycle \<in> set DIRS \<and>
   survival_direction pocket_cycle pocket = UP \<and>
   filter (\<lambda>d. d \<noteq> opposite (direction pocket_cycle) \<and> next_pos pocket_cycle (Some d) \<in> grid \<and>
                next_pos pocket_cycle (Some d) \<notin> pocket) [UP, DOWN, LEFT, RIGHT] = [UP, DOWN, RIGHT] \<and>
   flood_fill_count (1, 0) (insert (1, 0) pocket) = 2 \<and>
   flood_fill_count (1, 2) (insert (1, 2) pocket) = 2 \<and>
   flood_fill_count (2, 1) (insert (2, 1) pocket) = 1"
proof -
  have "survival_direction pocket_cycle pocket = UP"
    by code_simp
  moreover have "flood_fill_count (1, 0) (insert (1, 0) pocket) = 2"
    "flood_fill_count (1, 2) (insert (1, 2) pocket) = 2"
    "flood_fill_count (2, 1) (insert (2, 1) pocket) = 1"
    by code_simp+
  moreover have "filter (\<lambda>d. d \<noteq> opposite (direction pocket_cycle) \<and> next_pos pocket_cycle (Some d) \<in> grid \<and>
                next_pos pocket_cycle (Some d) \<notin> pocket) [UP, DOWN, LEFT, RIGHT] = [UP, DOWN, RIGHT]"
    by (simp add: pocket_cycle_def pocket_def opposite_def next_pos_def grid_def COLS_def ROWS_def
        UP_def DOWN_def LEFT_def RIGHT_def)
  moreover have "direction pocket_cycle \<in> set DIRS"
    by (simp add: pocket_cycle_def DIRS_def)
  ultimately show ?thesis
    using survival_direction_choice [of pocket_cycle pocket] by simp
qed

end
